theory Spec2Isabelle
  imports Main "HOL-Library.Word" "HOL-Library.Code_Target_Nat"
begin

section \<open>The analytical engine of bloaty.cc\<close>

text \<open>
  A shallow embedding of \<^verbatim>\<open>src/bloaty.cc\<close>: the range map, the name stripper, the
  program model (\<^verbatim>\<open>Program\<close>), the vtable scanner, the dominator calculator, the
  weight propagation and the reachability walk.

  Conventions.
  \<^item> \<^verbatim>\<open>uintptr_t\<close> and \<^verbatim>\<open>size_t\<close> are 64-bit words (the code prints them with
    \<^verbatim>\<open>%lx\<close>); their arithmetic wraps around.
  \<^item> \<^verbatim>\<open>uint32_t\<close> is a natural number; the one counter that can wrap, \<^verbatim>\<open>next_id_\<close>,
    is reduced modulo \<open>2 ^ 32\<close> where the code increments it. The counters of the
    dominator calculator are bounded by the number of slots of its vectors and never wrap.
  \<^item> An \<^verbatim>\<open>Object*\<close> points into a node of \<^verbatim>\<open>objects_\<close>, an
    \<^verbatim>\<open>std::unordered_map<std::string, Object>\<close>. Nodes of such a map never move and each
    node is determined by its key, so a non-null pointer is represented by the key of the
    node it points to and \<^verbatim>\<open>objects_\<close> doubles as the heap of all \<^verbatim>\<open>Object\<close>s. A
    pointer that may be null is an \<open>option\<close>. \<^verbatim>\<open>File*\<close> is treated the same way.
  \<^item> An \<^verbatim>\<open>std::set\<close> is a duplicate-free list holding the elements in iteration order.
  \<^item> \<^verbatim>\<open>exit(1)\<close> and undefined behaviour the code can run into are values of type
    \<open>error\<close>. Tracing output (\<^verbatim>\<open>verbose\<close>, \<^verbatim>\<open>name_path\<close>) is left out.
\<close>

type_synonym uintptr_t = "64 word"
type_synonym size_t = "64 word"
type_synonym uint32_t = nat
type_synonym obj_ptr = string
type_synonym file_ptr = string

datatype error =
    Exit_1            \<comment> \<open>\<^verbatim>\<open>exit(1)\<close> after a diagnostic\<close>
  | Null_Dereference  \<comment> \<open>a member access through a null pointer\<close>
  | Out_Of_Fuel       \<comment> \<open>the recursion depth allowed to a model function was used up\<close>

subsection \<open>NameStripper\<close>

fun find_first_of :: "char \<Rightarrow> string \<Rightarrow> nat option" where
  "find_first_of c [] = None"
| "find_first_of c (x # xs) =
     (if x = c then Some 0 else map_option Suc (find_first_of c xs))"

text \<open>\<^verbatim>\<open>StripName\<close> returns its flag together with what \<^verbatim>\<open>stripped()\<close> yields afterwards.\<close>

definition StripName :: "string \<Rightarrow> bool \<times> string" where
  "StripName name =
     (case find_first_of CHR ''('' name of
        None \<Rightarrow> (False, name)
      | Some paren \<Rightarrow> (True, take paren name))"

subsection \<open>RangeMap\<close>

text \<open>
  \<^verbatim>\<open>std::map<uintptr_t, std::pair<T, size_t>>\<close>: the entries in ascending key order.
  An iterator is a position in that list, \<^verbatim>\<open>begin()\<close> is position 0.
\<close>

type_synonym 'v RangeMap = "(uintptr_t \<times> ('v \<times> size_t)) list"

fun map_assign :: "'k::linorder \<Rightarrow> 'a \<Rightarrow> ('k \<times> 'a) list \<Rightarrow> ('k \<times> 'a) list" where
  "map_assign k v [] = [(k, v)]"
| "map_assign k v ((k', v') # m) =
     (if k < k' then (k, v) # (k', v') # m
      else if k = k' then (k, v) # m
      else (k', v') # map_assign k v m)"

fun upper_bound :: "'k::linorder \<Rightarrow> ('k \<times> 'a) list \<Rightarrow> nat" where
  "upper_bound k [] = 0"
| "upper_bound k ((k', v') # m) = (if k < k' then 0 else Suc (upper_bound k m))"

definition Add :: "uintptr_t \<Rightarrow> size_t \<Rightarrow> 'v \<Rightarrow> 'v RangeMap \<Rightarrow> 'v RangeMap" where
  "Add addr sz val mappings = map_assign addr (val, sz) mappings"

definition TryGet :: "uintptr_t \<Rightarrow> 'v RangeMap \<Rightarrow> 'v option" where
  "TryGet addr mappings =
     (let it = upper_bound addr mappings in
      if it = 0 then None
      else (let e = mappings ! (it - 1) in
            if fst e + snd (snd e) < addr then None else Some (fst (snd e))))"

definition Get :: "uintptr_t \<Rightarrow> 'v RangeMap \<Rightarrow> error + 'v" where
  "Get addr mappings =
     (case TryGet addr mappings of None \<Rightarrow> Inl Exit_1 | Some ret \<Rightarrow> Inr ret)"

subsection \<open>Object, File and Program\<close>

text \<open>
  Modelled from the spec: the declarations of \<^verbatim>\<open>Object\<close> and \<^verbatim>\<open>File\<close> are in
  \<^verbatim>\<open>bloaty.h\<close>, which is not part of the sources at hand. The fields are the ones
  \<^verbatim>\<open>bloaty.cc\<close> uses; a freshly constructed \<^verbatim>\<open>Object(name)\<close> has its name, no file and no
  references. Its other fields are set by \<^verbatim>\<open>AddObject\<close> before they are read, but for the
  weights, which start at 0 here.
\<close>

record Object =
  name :: string
  pretty_name :: string
  id' :: uint32_t
  vmaddr :: uintptr_t
  size' :: size_t
  data :: bool
  file' :: "file_ptr option"
  refs :: "obj_ptr list"
  weight :: size_t
  max_weight :: size_t

record File =
  file_name :: string
  file_refs :: "file_ptr list"
  source_line_weight :: size_t

definition new_Object :: "string \<Rightarrow> Object" where
  "new_Object name' =
     \<lparr>name = name', pretty_name = [], id' = 0, vmaddr = 0, size' = 0, data = False,
      file' = None, refs = [], weight = 0, max_weight = 0\<rparr>"

text \<open>
  Modelled from the spec: \<^verbatim>\<open>Object::SetSize\<close> is defined in \<^verbatim>\<open>bloaty.h\<close>. It stores the
  size of the symbol.
\<close>

definition SetSize :: "size_t \<Rightarrow> Object \<Rightarrow> Object" where
  "SetSize size'' ob = ob\<lparr>size' := size''\<rparr>"

definition new_File :: "string \<Rightarrow> File" where
  "new_File name' = \<lparr>file_name = name', file_refs = [], source_line_weight = 0\<rparr>"

text \<open>
  \<^verbatim>\<open>std::set::insert\<close>: nothing happens when the element is there already. Where a new
  element lands in the walk of a set of pointers depends on the addresses of the nodes,
  which the model does not fix: it is put last.
\<close>

definition set_insert :: "'a \<Rightarrow> 'a list \<Rightarrow> 'a list" where
  "set_insert x xs = (if x \<in> set xs then xs else xs @ [x])"

text \<open>Reading and writing through a pointer into a map of nodes.\<close>

definition deref :: "('p \<rightharpoonup> 'a) \<Rightarrow> 'p \<Rightarrow> 'a" where
  "deref heap ptr = the (heap ptr)"

definition assign :: "'p \<Rightarrow> ('a \<Rightarrow> 'a) \<Rightarrow> ('p \<rightharpoonup> 'a) \<Rightarrow> ('p \<rightharpoonup> 'a)" where
  "assign ptr f heap = (case heap ptr of None \<Rightarrow> heap | Some ob \<Rightarrow> heap(ptr \<mapsto> f ob))"

record Program =
  next_id :: uint32_t
  total_size :: size_t
  max_weight_p :: size_t
  files :: "string \<rightharpoonup> File"
  objects :: "string \<rightharpoonup> Object"
  stripped_pretty_names :: "string \<rightharpoonup> obj_ptr option"
  objects_by_addr :: "obj_ptr RangeMap"
  file_offsets :: "uintptr_t RangeMap"
  entry :: "obj_ptr option"

text \<open>
  The constructor sets \<^verbatim>\<open>next_id_\<close> and \<^verbatim>\<open>total_size_\<close> only. \<^verbatim>\<open>entry_\<close> and
  \<^verbatim>\<open>max_weight_\<close> are left uninitialised by the code; the model starts them at null and 0.
  Nothing below reads \<open>entry\<close> of a program before \<^verbatim>\<open>SetEntryPoint\<close> has set it: a null
  entry point is the state after \<^verbatim>\<open>SetEntryPoint\<close> with a null pointer.
\<close>

definition Program_init :: Program where
  "Program_init =
     \<lparr>next_id = 1, total_size = 0, max_weight_p = 0, files = Map.empty, objects = Map.empty,
      stripped_pretty_names = Map.empty, objects_by_addr = [], file_offsets = [],
      entry = None\<rparr>"

text \<open>\<^verbatim>\<open>objects_.emplace(name, name)\<close>: a node is created only when the key is new.\<close>

definition emplace :: "string \<Rightarrow> (string \<Rightarrow> 'a) \<Rightarrow> (string \<rightharpoonup> 'a) \<Rightarrow> (string \<rightharpoonup> 'a)" where
  "emplace key mk m = (case m key of None \<Rightarrow> m(key \<mapsto> mk key) | Some _ \<Rightarrow> m)"

text \<open>
  \<^verbatim>\<open>Program::AddObject\<close>. The demangler is a child process (\<^verbatim>\<open>c++filt\<close>); the model takes
  its function \<open>Demangle\<close> as a parameter.
\<close>

definition AddObject ::
  "(string \<Rightarrow> string) \<Rightarrow> string \<Rightarrow> uintptr_t \<Rightarrow> size_t \<Rightarrow> bool \<Rightarrow> Program \<Rightarrow> obj_ptr \<times> Program"
where
  "AddObject Demangle name' vmaddr' size'' data' p =
     (let ret = name';
          p1 = p\<lparr>objects :=
                   assign ret (\<lambda>ob. (SetSize size'' (ob\<lparr>id' := next_id p, vmaddr := vmaddr'\<rparr>))
                                      \<lparr>data := data', name := name'\<rparr>)
                     (emplace name' new_Object (objects p)),
                 next_id := (next_id p + 1) mod 2 ^ 32,
                 total_size := total_size p + size'',
                 objects_by_addr := Add vmaddr' size'' ret (objects_by_addr p)\<rparr>;
          demangled = Demangle name'
      in case StripName demangled of
           (True, stripped) \<Rightarrow>
             (case stripped_pretty_names p1 stripped of
                None \<Rightarrow>
                  (ret, p1\<lparr>stripped_pretty_names := (stripped_pretty_names p1)(stripped \<mapsto> Some ret),
                           objects := assign ret (\<lambda>ob. ob\<lparr>pretty_name := stripped\<rparr>) (objects p1)\<rparr>)
              | Some it \<Rightarrow>
                  (let p2 = p1\<lparr>objects := assign ret (\<lambda>ob. ob\<lparr>pretty_name := demangled\<rparr>) (objects p1)\<rparr>
                   in case it of
                        Some claimant \<Rightarrow>
                          (ret, p2\<lparr>objects := assign claimant (\<lambda>ob. ob\<lparr>pretty_name := Demangle (name ob)\<rparr>)
                                                (objects p2),
                                   stripped_pretty_names := (stripped_pretty_names p2)(stripped \<mapsto> None)\<rparr>)
                      | None \<Rightarrow> (ret, p2)))
         | (False, stripped) \<Rightarrow>
             (ret, p1\<lparr>objects := assign ret (\<lambda>ob. ob\<lparr>pretty_name := demangled\<rparr>) (objects p1)\<rparr>))"

definition AddFileMapping :: "uintptr_t \<Rightarrow> uintptr_t \<Rightarrow> size_t \<Rightarrow> Program \<Rightarrow> Program" where
  "AddFileMapping vmaddr' fileoff filesize p =
     p\<lparr>file_offsets := Add vmaddr' filesize (vmaddr' - fileoff) (file_offsets p)\<rparr>"

definition TryGetFileOffset :: "uintptr_t \<Rightarrow> Program \<Rightarrow> uintptr_t option" where
  "TryGetFileOffset vmaddr' p =
     (case TryGet vmaddr' (file_offsets p) of
        Some diff \<Rightarrow> Some (vmaddr' - diff)
      | None \<Rightarrow> None)"

definition SetEntryPoint :: "obj_ptr option \<Rightarrow> Program \<Rightarrow> Program" where
  "SetEntryPoint obj p = p\<lparr>entry := obj\<rparr>"

definition TryAddRef :: "obj_ptr option \<Rightarrow> uintptr_t \<Rightarrow> Program \<Rightarrow> Program" where
  "TryAddRef from vmaddr' p =
     (case from of
        None \<Rightarrow> p
      | Some from' \<Rightarrow>
          (case TryGet vmaddr' (objects_by_addr p) of
             None \<Rightarrow> p
           | Some to \<Rightarrow>
               (let p1 = p\<lparr>objects := assign from' (\<lambda>ob. ob\<lparr>refs := set_insert to (refs ob)\<rparr>)
                                        (objects p)\<rparr>
                in case (file' (deref (objects p1) from'), file' (deref (objects p1) to)) of
                     (Some from_file, Some to_file) \<Rightarrow>
                       p1\<lparr>files := assign from_file
                                     (\<lambda>f. f\<lparr>file_refs := set_insert to_file (file_refs f)\<rparr>)
                                     (files p1)\<rparr>
                   | _ \<Rightarrow> p1)))"

definition GetFile :: "string \<Rightarrow> Program \<Rightarrow> file_ptr \<times> Program" where
  "GetFile filename p = (filename, p\<lparr>files := emplace filename new_File (files p)\<rparr>)"

definition HasFiles :: "Program \<Rightarrow> bool" where
  "HasFiles p = (files p \<noteq> Map.empty)"

definition FindFunctionByName :: "string \<Rightarrow> Program \<Rightarrow> obj_ptr option" where
  "FindFunctionByName name' p = (case objects p name' of None \<Rightarrow> None | Some _ \<Rightarrow> Some name')"

definition FindObjectByAddr :: "uintptr_t \<Rightarrow> Program \<Rightarrow> obj_ptr option" where
  "FindObjectByAddr addr p = TryGet addr (objects_by_addr p)"

text \<open>\<^verbatim>\<open>ProgramDataSink::AddRef\<close>.\<close>

definition AddRef :: "obj_ptr \<Rightarrow> obj_ptr \<Rightarrow> Program \<Rightarrow> Program" where
  "AddRef from to p =
     p\<lparr>objects := assign from (\<lambda>ob. ob\<lparr>refs := set_insert to (refs ob)\<rparr>) (objects p)\<rparr>"


text \<open>A run of \<^verbatim>\<open>AddObject\<close> calls, as \<^verbatim>\<open>ParseELFSymbols\<close> issues them through the sink.\<close>

fun AddObjects ::
  "(string \<Rightarrow> string) \<Rightarrow> (string \<times> uintptr_t \<times> size_t \<times> bool) list \<Rightarrow> Program \<Rightarrow> Program"
where
  "AddObjects Demangle [] p = p"
| "AddObjects Demangle ((name', vmaddr', size'', data') # calls) p =
     AddObjects Demangle calls (snd (AddObject Demangle name' vmaddr' size'' data' p))"

text \<open>
  A demangler for the examples: it knows three mangled names and returns every other
  string unchanged, as \<^verbatim>\<open>c++filt\<close> does.
\<close>

definition cxxfilt :: "string \<Rightarrow> string" where
  "cxxfilt symbol =
     (if symbol = ''_Z3fooi'' then ''foo(int)''
      else if symbol = ''_Z3food'' then ''foo(double)''
      else if symbol = ''_Z3bari'' then ''bar(int)''
      else symbol)"

subsection \<open>ParseVTables\<close>

text \<open>
  The binary file is a list of bytes and the stream position a number. \<^verbatim>\<open>fread\<close> of one
  \<^verbatim>\<open>uintptr_t\<close> fails when fewer than 8 bytes are left; the word is read in the byte order
  of the host, taken to be little-endian. \<^verbatim>\<open>fseek\<close> to an offset that is negative as a
  \<^verbatim>\<open>long\<close> fails and leaves the position where it was (the code ignores its result).
\<close>

type_synonym byte = "8 word"

definition decode_uintptr :: "byte list \<Rightarrow> uintptr_t" where
  "decode_uintptr bytes = foldr (\<lambda>b acc. ucast b + 256 * acc) bytes 0"

definition fread_uintptr :: "byte list \<Rightarrow> nat \<Rightarrow> (uintptr_t \<times> nat) option" where
  "fread_uintptr f pos =
     (if pos + 8 \<le> length f then Some (decode_uintptr (take 8 (drop pos f)), pos + 8) else None)"

definition fseek_set :: "uintptr_t \<Rightarrow> nat \<Rightarrow> nat" where
  "fseek_set base pos = (if base < 2 ^ 63 then unat base else pos)"

text \<open>
  The loop over the words of one object. The state is the program, the stream position and
  a log of the words handed to \<^verbatim>\<open>TryAddRef\<close>, one entry per call; the log is not in the
  code, it records the calls.
\<close>

function scan_words ::
  "byte list \<Rightarrow> obj_ptr \<Rightarrow> size_t \<Rightarrow> Program \<times> nat \<times> uintptr_t list
     \<Rightarrow> error + Program \<times> nat \<times> uintptr_t list"
where
  "scan_words f obj i (p, pos, calls) =
     (if i < size' (deref (objects p) obj) then
        (case fread_uintptr f pos of
           None \<Rightarrow> Inl Exit_1
         | Some (addr, pos') \<Rightarrow>
             scan_words f obj (i + 8) (TryAddRef (Some obj) addr p, pos', calls @ [addr]))
      else Inr (p, pos, calls))"
  by pat_completeness auto
termination
  by (relation "measure (\<lambda>(f, obj, i, p, pos, calls). length f - pos)")
     (auto simp: fread_uintptr_def split: if_splits)

declare scan_words.simps [simp del]

definition scan_object ::
  "byte list \<Rightarrow> obj_ptr \<Rightarrow> Program \<times> nat \<times> uintptr_t list
     \<Rightarrow> error + Program \<times> nat \<times> uintptr_t list"
where
  "scan_object f obj st =
     (case st of (p, pos, calls) \<Rightarrow>
        if \<not> data (deref (objects p) obj) then Inr st
        else (case TryGetFileOffset (vmaddr (deref (objects p) obj)) p of
                None \<Rightarrow> Inr st
              | Some base \<Rightarrow> scan_words f obj 0 (p, fseek_set base pos, calls)))"

text \<open>
  \<^verbatim>\<open>ParseVTables\<close> walks \<^verbatim>\<open>objects_\<close> in the order of the hash table, which the language
  leaves open: the order is the parameter \<open>keys\<close>.
\<close>

fun ParseVTables_loop ::
  "byte list \<Rightarrow> obj_ptr list \<Rightarrow> Program \<times> nat \<times> uintptr_t list
     \<Rightarrow> error + Program \<times> nat \<times> uintptr_t list"
where
  "ParseVTables_loop f [] st = Inr st"
| "ParseVTables_loop f (obj # keys) st =
     (case scan_object f obj st of Inl e \<Rightarrow> Inl e | Inr st' \<Rightarrow> ParseVTables_loop f keys st')"

definition ParseVTables ::
  "byte list \<Rightarrow> obj_ptr list \<Rightarrow> Program \<Rightarrow> error + Program \<times> uintptr_t list"
where
  "ParseVTables f keys p =
     (case ParseVTables_loop f keys (p, 0, []) of
        Inl e \<Rightarrow> Inl e
      | Inr (p', pos, calls) \<Rightarrow> Inr (p', calls))"


subsection \<open>DominatorCalculator\<close>

text \<open>
  \<^verbatim>\<open>node_info_\<close> and \<^verbatim>\<open>ordering_\<close> are vectors indexed by object id; \<^verbatim>\<open>resize(total)\<close>
  on the empty vectors fills them with zeroed slots. The sets of ids \<^verbatim>\<open>pred\<close> and
  \<^verbatim>\<open>bucket\<close> are kept in ascending order, the order in which the code walks them.
\<close>

record NodeInfo =
  node :: "obj_ptr option"
  parent :: uint32_t
  ancestor :: uint32_t
  label :: uint32_t
  semi :: uint32_t
  dom' :: uint32_t
  pred' :: "uint32_t list"
  bucket :: "uint32_t list"

record DominatorCalculator =
  n' :: uint32_t
  node_info :: "NodeInfo list"
  ordering :: "uint32_t list"

definition NodeInfo_zero :: NodeInfo where
  "NodeInfo_zero =
     \<lparr>node = None, parent = 0, ancestor = 0, label = 0, semi = 0, dom' = 0, pred' = [],
      bucket = []\<rparr>"

definition id_set_insert :: "uint32_t \<Rightarrow> uint32_t list \<Rightarrow> uint32_t list" where
  "id_set_insert x xs = (if x \<in> set xs then xs else insort x xs)"

definition Parent :: "DominatorCalculator \<Rightarrow> uint32_t \<Rightarrow> uint32_t" where
  "Parent c v = parent (node_info c ! v)"

definition Ancestor :: "DominatorCalculator \<Rightarrow> uint32_t \<Rightarrow> uint32_t" where
  "Ancestor c v = ancestor (node_info c ! v)"

definition Semi :: "DominatorCalculator \<Rightarrow> uint32_t \<Rightarrow> uint32_t" where
  "Semi c v = semi (node_info c ! v)"

definition Label :: "DominatorCalculator \<Rightarrow> uint32_t \<Rightarrow> uint32_t" where
  "Label c v = label (node_info c ! v)"

definition Dom :: "DominatorCalculator \<Rightarrow> uint32_t \<Rightarrow> uint32_t" where
  "Dom c v = dom' (node_info c ! v)"

definition Vertex :: "DominatorCalculator \<Rightarrow> uint32_t \<Rightarrow> uint32_t" where
  "Vertex c v = ordering c ! v"

definition Pred :: "DominatorCalculator \<Rightarrow> uint32_t \<Rightarrow> uint32_t list" where
  "Pred c v = pred' (node_info c ! v)"

definition Bucket :: "DominatorCalculator \<Rightarrow> uint32_t \<Rightarrow> uint32_t list" where
  "Bucket c v = bucket (node_info c ! v)"

text \<open>An assignment through one of the reference-returning accessors, \<^verbatim>\<open>Semi(v) = x\<close>.\<close>

definition info_update ::
  "uint32_t \<Rightarrow> (NodeInfo \<Rightarrow> NodeInfo) \<Rightarrow> DominatorCalculator \<Rightarrow> DominatorCalculator"
where
  "info_update v f c = c\<lparr>node_info := (node_info c)[v := f (node_info c ! v)]\<rparr>"

text \<open>
  \<^verbatim>\<open>Initialize\<close>, the depth-first numbering. The first argument bounds the depth of the
  recursion. \<open>Initialize_refs\<close> is the loop over \<^verbatim>\<open>pv->refs\<close>.
\<close>

fun Initialize ::
  "nat \<Rightarrow> (string \<rightharpoonup> Object) \<Rightarrow> obj_ptr \<Rightarrow> DominatorCalculator \<Rightarrow> error + DominatorCalculator"
and Initialize_refs ::
  "nat \<Rightarrow> (string \<rightharpoonup> Object) \<Rightarrow> uint32_t \<Rightarrow> obj_ptr list \<Rightarrow> DominatorCalculator
     \<Rightarrow> error + DominatorCalculator"
where
  "Initialize 0 heap pv c = Inl Out_Of_Fuel"
| "Initialize (Suc k) heap pv c =
     (let v = id' (deref heap pv);
          c1 = info_update v (\<lambda>i. i\<lparr>node := Some pv\<rparr>) c;
          c2 = c1\<lparr>n' := n' c1 + 1\<rparr>;
          c3 = info_update v (\<lambda>i. i\<lparr>semi := n' c2\<rparr>) c2;
          c4 = c3\<lparr>ordering := (ordering c3)[n' c3 := v]\<rparr>;
          c5 = info_update v (\<lambda>i. i\<lparr>label := v\<rparr>) c4;
          c6 = info_update v (\<lambda>i. i\<lparr>ancestor := 0\<rparr>) c5
      in Initialize_refs k heap v (refs (deref heap pv)) c6)"
| "Initialize_refs k heap v [] c = Inr c"
| "Initialize_refs k heap v (target # targets) c =
     (let w = id' (deref heap target) in
      case (if Semi c w = 0
            then Initialize k heap target (info_update w (\<lambda>i. i\<lparr>parent := v\<rparr>) c)
            else Inr c) of
        Inl e \<Rightarrow> Inl e
      | Inr c' \<Rightarrow>
          Initialize_refs k heap v targets
            (info_update w (\<lambda>i. i\<lparr>pred' := id_set_insert v (pred' i)\<rparr>) c'))"

definition Link :: "uint32_t \<Rightarrow> uint32_t \<Rightarrow> DominatorCalculator \<Rightarrow> DominatorCalculator" where
  "Link v w c = info_update w (\<lambda>i. i\<lparr>ancestor := v\<rparr>) c"

fun Compress :: "nat \<Rightarrow> uint32_t \<Rightarrow> DominatorCalculator \<Rightarrow> error + DominatorCalculator" where
  "Compress 0 v c = Inl Out_Of_Fuel"
| "Compress (Suc k) v c =
     (if Ancestor c (Ancestor c v) \<noteq> 0 then
        (case Compress k (Ancestor c v) c of
           Inl e \<Rightarrow> Inl e
         | Inr c1 \<Rightarrow>
             (let c2 = (if Semi c1 (Label c1 (Ancestor c1 v)) < Semi c1 (Label c1 v)
                        then info_update v (\<lambda>i. i\<lparr>label := Label c1 (Ancestor c1 v)\<rparr>) c1
                        else c1)
              in Inr (info_update v (\<lambda>i. i\<lparr>ancestor := Ancestor c2 (Ancestor c2 v)\<rparr>) c2)))
      else Inr c)"

definition Eval ::
  "nat \<Rightarrow> uint32_t \<Rightarrow> DominatorCalculator \<Rightarrow> error + uint32_t \<times> DominatorCalculator"
where
  "Eval k v c =
     (if Ancestor c v = 0 then Inr (v, c)
      else (case Compress k v c of Inl e \<Rightarrow> Inl e | Inr c' \<Rightarrow> Inr (Label c' v, c')))"

text \<open>The loop over \<^verbatim>\<open>Pred(w)\<close> in \<^verbatim>\<open>CalculateDominators\<close>.\<close>

fun semi_loop ::
  "nat \<Rightarrow> uint32_t \<Rightarrow> uint32_t list \<Rightarrow> DominatorCalculator \<Rightarrow> error + DominatorCalculator"
where
  "semi_loop k w [] c = Inr c"
| "semi_loop k w (v # vs) c =
     (case Eval k v c of
        Inl e \<Rightarrow> Inl e
      | Inr (u, c1) \<Rightarrow>
          semi_loop k w vs
            (if Semi c1 u < Semi c1 w then info_update w (\<lambda>i. i\<lparr>semi := Semi c1 u\<rparr>) c1
             else c1))"

text \<open>The loop over \<^verbatim>\<open>Bucket(Parent(w))\<close>.\<close>

fun bucket_loop ::
  "nat \<Rightarrow> uint32_t \<Rightarrow> uint32_t list \<Rightarrow> DominatorCalculator \<Rightarrow> error + DominatorCalculator"
where
  "bucket_loop k w [] c = Inr c"
| "bucket_loop k w (v # vs) c =
     (case Eval k v c of
        Inl e \<Rightarrow> Inl e
      | Inr (u, c1) \<Rightarrow>
          bucket_loop k w vs
            (info_update v (\<lambda>i. i\<lparr>dom' := (if Semi c1 u < Semi c1 v then u else Parent c1 w)\<rparr>) c1))"

text \<open>
  \<^verbatim>\<open>for (uint32_t i = n_ - 1; i > 0; --i)\<close>: the second argument is \<open>i\<close>, the loop ends
  at 0.
\<close>

fun link_eval_loop ::
  "nat \<Rightarrow> uint32_t \<Rightarrow> DominatorCalculator \<Rightarrow> error + DominatorCalculator"
where
  "link_eval_loop k 0 c = Inr c"
| "link_eval_loop k (Suc j) c =
     (let i = Suc j; w = Vertex c i in
      case semi_loop k w (Pred c w) c of
        Inl e \<Rightarrow> Inl e
      | Inr c1 \<Rightarrow>
          (let c2 = info_update (Vertex c1 (Semi c1 w))
                      (\<lambda>i. i\<lparr>bucket := id_set_insert w (bucket i)\<rparr>) c1;
               c3 = Link (Parent c2 w) w c2
           in case bucket_loop k w (Bucket c3 (Parent c3 w)) c3 of
                Inl e \<Rightarrow> Inl e
              | Inr c4 \<Rightarrow> link_eval_loop k j c4))"

text \<open>\<^verbatim>\<open>for (uint32_t i = 1; i < n_; i++)\<close>.\<close>

definition dom_step :: "uint32_t \<Rightarrow> DominatorCalculator \<Rightarrow> DominatorCalculator" where
  "dom_step i c =
     (let w = Vertex c i in
      if Dom c w \<noteq> Vertex c (Semi c w)
      then info_update w (\<lambda>i. i\<lparr>dom' := Dom c (Dom c w)\<rparr>) c
      else c)"

definition CalculateDominators ::
  "nat \<Rightarrow> (string \<rightharpoonup> Object) \<Rightarrow> obj_ptr option \<Rightarrow> uint32_t \<Rightarrow> error + DominatorCalculator"
where
  "CalculateDominators k heap pr total' =
     (case pr of
        None \<Rightarrow> Inl Null_Dereference
      | Some pr' \<Rightarrow>
          (let r = id' (deref heap pr');
               c0 = \<lparr>n' = 0, node_info = replicate total' NodeInfo_zero,
                     ordering = replicate total' 0\<rparr>
           in case Initialize k heap pr' c0 of
                Inl e \<Rightarrow> Inl e
              | Inr c1 \<Rightarrow>
                  (case link_eval_loop k (n' c1 - 1) c1 of
                     Inl e \<Rightarrow> Inl e
                   | Inr c2 \<Rightarrow>
                       Inr (info_update r (\<lambda>i. i\<lparr>dom' := 0\<rparr>)
                              (fold dom_step [1..<n' c2] c2)))))"

text \<open>
  \<^verbatim>\<open>Calculate\<close> fills the map \<open>dominators\<close> of its caller. The values are the
  \<^verbatim>\<open>node\<close> pointers of the dominator slots, which can be null.
\<close>

definition Calculate ::
  "nat \<Rightarrow> (string \<rightharpoonup> Object) \<Rightarrow> obj_ptr option \<Rightarrow> uint32_t \<Rightarrow> (obj_ptr \<rightharpoonup> obj_ptr option)
     \<Rightarrow> error + (obj_ptr \<rightharpoonup> obj_ptr option)"
where
  "Calculate k heap root total' dominators =
     (case CalculateDominators k heap root total' of
        Inl e \<Rightarrow> Inl e
      | Inr calculator \<Rightarrow>
          Inr (fold (\<lambda>info doms.
                       case node info of
                         None \<Rightarrow> doms
                       | Some nd \<Rightarrow>
                           if dom' info = 0 then doms
                           else doms(nd \<mapsto> node (node_info calculator ! dom' info)))
                 (node_info calculator) dominators))"

subsection \<open>Weight propagation\<close>

text \<open>
  \<^verbatim>\<open>CalculateWeights\<close>; the state is the heap of objects and the set \<^verbatim>\<open>seen\<close>, which
  also is the list of the objects processed, in the order of their first visit.
  \<open>CalculateWeights_refs\<close> is the loop over \<^verbatim>\<open>obj->refs\<close>.
\<close>

fun CalculateWeights ::
  "nat \<Rightarrow> obj_ptr \<Rightarrow> (obj_ptr \<rightharpoonup> obj_ptr option) \<Rightarrow> (string \<rightharpoonup> Object) \<times> obj_ptr list
     \<Rightarrow> error + (string \<rightharpoonup> Object) \<times> obj_ptr list"
and CalculateWeights_refs ::
  "nat \<Rightarrow> obj_ptr \<Rightarrow> obj_ptr list \<Rightarrow> (obj_ptr \<rightharpoonup> obj_ptr option)
     \<Rightarrow> (string \<rightharpoonup> Object) \<times> obj_ptr list \<Rightarrow> error + (string \<rightharpoonup> Object) \<times> obj_ptr list"
where
  "CalculateWeights 0 obj dominators (heap, seen) = Inl Out_Of_Fuel"
| "CalculateWeights (Suc k) obj dominators (heap, seen) =
     (if obj \<in> set seen then Inr (heap, seen)
      else
        (let heap1 = assign obj (\<lambda>ob. ob\<lparr>weight := size' ob\<rparr>) heap;
             heap2 = assign obj (\<lambda>ob. ob\<lparr>max_weight := weight ob\<rparr>) heap1
         in case CalculateWeights_refs k obj (refs (deref heap2 obj)) dominators
                   (heap2, seen @ [obj]) of
              Inl e \<Rightarrow> Inl e
            | Inr (heap3, seen3) \<Rightarrow>
                (case dominators obj of
                   None \<Rightarrow> Inr (heap3, seen3)
                 | Some None \<Rightarrow> Inl Null_Dereference
                 | Some (Some d) \<Rightarrow>
                     Inr (assign d (\<lambda>ob. ob\<lparr>weight := weight ob + weight (deref heap3 obj)\<rparr>)
                            heap3,
                          seen3))))"
| "CalculateWeights_refs k obj [] dominators st = Inr st"
| "CalculateWeights_refs k obj (target # targets) dominators st =
     (case CalculateWeights k target dominators st of
        Inl e \<Rightarrow> Inl e
      | Inr (heap1, seen1) \<Rightarrow>
          CalculateWeights_refs k obj targets dominators
            (assign obj (\<lambda>ob. ob\<lparr>max_weight :=
                                  max (max_weight ob) (max_weight (deref heap1 target))\<rparr>) heap1,
             seen1))"

text \<open>
  \<^verbatim>\<open>PrintSymbolsByTransitiveWeight\<close> up to the end of its first block: the diagnostic
  written to \<^verbatim>\<open>std::cerr\<close>, then the dominators and the weights. The result is what was
  written to \<^verbatim>\<open>cerr\<close> and the program as the block leaves it; the listing and the
  \<^verbatim>\<open>graph.dot\<close> file that follow only read that state.
\<close>

definition PrintSymbolsByTransitiveWeight :: "nat \<Rightarrow> Program \<Rightarrow> string list \<times> (error + Program)"
where
  "PrintSymbolsByTransitiveWeight k p =
     (let cerr = (if entry p = None then [''Transitive weight graph requires entry point.'']
                  else [])
      in (cerr,
          case Calculate k (objects p) (entry p) (next_id p) Map.empty of
            Inl e \<Rightarrow> Inl e
          | Inr dominators \<Rightarrow>
              (case entry p of
                 None \<Rightarrow> Inl Null_Dereference
               | Some entry' \<Rightarrow>
                   (case CalculateWeights k entry' dominators (objects p, []) of
                      Inl e \<Rightarrow> Inl e
                    | Inr (heap, seen) \<Rightarrow>
                        Inr (p\<lparr>objects := heap,
                               max_weight_p := max_weight (deref heap entry')\<rparr>)))))"

subsection \<open>Reachability\<close>

text \<open>
  \<^verbatim>\<open>GC\<close>; the state is the set \<^verbatim>\<open>garbage\<close>, the vector \<^verbatim>\<open>stack\<close> and a log of the
  objects whose erasure succeeded, in that order; the log is not in the code.
\<close>

fun GC ::
  "nat \<Rightarrow> (string \<rightharpoonup> Object) \<Rightarrow> obj_ptr \<Rightarrow> obj_ptr list \<times> obj_ptr list \<times> obj_ptr list
     \<Rightarrow> error + obj_ptr list \<times> obj_ptr list \<times> obj_ptr list"
and GC_refs ::
  "nat \<Rightarrow> (string \<rightharpoonup> Object) \<Rightarrow> obj_ptr list \<Rightarrow> obj_ptr list \<times> obj_ptr list \<times> obj_ptr list
     \<Rightarrow> error + obj_ptr list \<times> obj_ptr list \<times> obj_ptr list"
where
  "GC 0 heap obj (garbage, stack, visited) = Inl Out_Of_Fuel"
| "GC (Suc k) heap obj (garbage, stack, visited) =
     (if obj \<notin> set garbage then Inr (garbage, stack, visited)
      else
        (case GC_refs k heap (refs (deref heap obj))
                (removeAll obj garbage, stack @ [obj], visited @ [obj]) of
           Inl e \<Rightarrow> Inl e
         | Inr (garbage', stack', visited') \<Rightarrow> Inr (garbage', butlast stack', visited')))"
| "GC_refs k heap [] st = Inr st"
| "GC_refs k heap (child # children) st =
     (case GC k heap child st of Inl e \<Rightarrow> Inl e | Inr st' \<Rightarrow> GC_refs k heap children st')"

fun GCFiles ::
  "nat \<Rightarrow> (string \<rightharpoonup> File) \<Rightarrow> file_ptr \<Rightarrow> file_ptr list \<Rightarrow> error + file_ptr list"
and GCFiles_refs ::
  "nat \<Rightarrow> (string \<rightharpoonup> File) \<Rightarrow> file_ptr list \<Rightarrow> file_ptr list \<Rightarrow> error + file_ptr list"
where
  "GCFiles 0 heap fl garbage = Inl Out_Of_Fuel"
| "GCFiles (Suc k) heap fl garbage =
     (if fl \<notin> set garbage then Inr garbage
      else GCFiles_refs k heap (file_refs (deref heap fl)) (removeAll fl garbage))"
| "GCFiles_refs k heap [] garbage = Inr garbage"
| "GCFiles_refs k heap (child # children) garbage =
     (case GCFiles k heap child garbage of
        Inl e \<Rightarrow> Inl e
      | Inr garbage' \<Rightarrow> GCFiles_refs k heap children garbage')"

text \<open>
  \<^verbatim>\<open>PrintGarbage\<close>. The keys of \<^verbatim>\<open>objects_\<close> and \<^verbatim>\<open>files_\<close> are given in the order in
  which the hash tables are walked. The result is the diagnostic written to \<^verbatim>\<open>cerr\<close> and
  the four numbers printed: total and garbage files (when the entry has a file), total
  and garbage objects.
\<close>

definition PrintGarbage ::
  "nat \<Rightarrow> obj_ptr list \<Rightarrow> file_ptr list \<Rightarrow> Program
     \<Rightarrow> string list \<times> (error + (nat \<times> nat) option \<times> nat \<times> nat)"
where
  "PrintGarbage k object_keys file_keys p =
     (case entry p of
        None \<Rightarrow> ([''Error: Can't calculate garbage without entry point.''], Inl Exit_1)
      | Some entry' \<Rightarrow>
          ([],
           case GC k (objects p) entry' (object_keys, [], []) of
             Inl e \<Rightarrow> Inl e
           | Inr (garbage, stack, visited) \<Rightarrow>
               (case file' (deref (objects p) entry') of
                  None \<Rightarrow> Inr (None, length object_keys, length garbage)
                | Some entry_file \<Rightarrow>
                    (case GCFiles k (files p) entry_file file_keys of
                       Inl e \<Rightarrow> Inl e
                     | Inr garbage_files \<Rightarrow>
                         Inr (Some (length file_keys, length garbage_files),
                              length object_keys, length garbage)))))"



subsection \<open>Scenarios\<close>

text \<open>
  Programs built through the calls a parser makes: \<^verbatim>\<open>AddObject\<close>, \<^verbatim>\<open>AddRef\<close>,
  \<^verbatim>\<open>AddFileMapping\<close>, \<^verbatim>\<open>SetEntryPoint\<close>.
\<close>

definition add_refs :: "(obj_ptr \<times> obj_ptr) list \<Rightarrow> Program \<Rightarrow> Program" where
  "add_refs edges p = fold (\<lambda>e. AddRef (fst e) (snd e)) edges p"

text \<open>The linear chain \<open>A(10) \<rightarrow> B(20) \<rightarrow> C(30)\<close> with entry \<open>A\<close>.\<close>

definition scenario_chain :: Program where
  "scenario_chain =
     SetEntryPoint (Some ''A'')
       (add_refs [(''A'', ''B''), (''B'', ''C'')]
          (AddObjects cxxfilt
             [(''A'', 0x100, 10, False), (''B'', 0x200, 20, False), (''C'', 0x300, 30, False)]
             Program_init))"

text \<open>The chain \<open>A(10) \<rightarrow> B(20) \<rightarrow> C(30) \<rightarrow> D(40)\<close> with entry \<open>A\<close>.\<close>

definition scenario_chain4 :: Program where
  "scenario_chain4 =
     SetEntryPoint (Some ''A'')
       (add_refs [(''A'', ''B''), (''B'', ''C''), (''C'', ''D'')]
          (AddObjects cxxfilt
             [(''A'', 0x100, 10, False), (''B'', 0x200, 20, False), (''C'', 0x300, 30, False),
              (''D'', 0x400, 40, False)]
             Program_init))"

text \<open>
  The diamond \<open>A(10) \<rightarrow> B(20), C(30)\<close>, \<open>B \<rightarrow> D(40)\<close>, \<open>C \<rightarrow> D\<close> with entry \<open>A\<close>.
  The references of \<open>A\<close> are walked in the order given by \<open>first\<close> and \<open>second\<close>.
\<close>

definition scenario_diamond :: "obj_ptr \<Rightarrow> obj_ptr \<Rightarrow> Program" where
  "scenario_diamond first second =
     SetEntryPoint (Some ''A'')
       (add_refs [(''A'', first), (''A'', second), (''B'', ''D''), (''C'', ''D'')]
          (AddObjects cxxfilt
             [(''A'', 0x100, 10, False), (''B'', 0x200, 20, False), (''C'', 0x300, 30, False),
              (''D'', 0x400, 40, False)]
             Program_init))"

text \<open>The cycle \<open>A(10) \<rightarrow> B(20) \<rightarrow> C(30) \<rightarrow> B\<close> with a self-edge at \<open>C\<close>, entry \<open>A\<close>.\<close>

definition scenario_cycle :: Program where
  "scenario_cycle =
     SetEntryPoint (Some ''A'')
       (add_refs [(''A'', ''B''), (''B'', ''C''), (''C'', ''B''), (''C'', ''C'')]
          (AddObjects cxxfilt
             [(''A'', 0x100, 10, False), (''B'', 0x200, 20, False), (''C'', 0x300, 30, False)]
             Program_init))"

text \<open>
  A data symbol \<open>V\<close> of 12 bytes at \<open>0x1000\<close>, mapped to file offset 0, and two functions
  at \<open>0x2000\<close> and \<open>0x3000\<close>. The file holds the words \<open>0x2000\<close> and \<open>0x3000\<close>.
\<close>

definition scenario_vtable :: Program where
  "scenario_vtable =
     AddFileMapping 0x1000 0 0x100
       (AddObjects cxxfilt
          [(''V'', 0x1000, 12, True), (''F1'', 0x2000, 8, False), (''F2'', 0x3000, 8, False)]
          Program_init)"

definition vtable_file :: "byte list" where
  "vtable_file = [0x00, 0x20, 0, 0, 0, 0, 0, 0, 0x00, 0x30, 0, 0, 0, 0, 0, 0]"

subsection \<open>Counting the calls behind a stripped name\<close>

text \<open>
  The number of \<^verbatim>\<open>AddObject\<close> calls in a run whose demangled name has a parameter list and
  is stripped to \<open>stripped\<close>: the calls that look \<open>stripped\<close> up in
  \<^verbatim>\<open>stripped_pretty_names_\<close>.
\<close>

definition calls_with ::
  "(string \<Rightarrow> string) \<Rightarrow> string \<Rightarrow> (string \<times> uintptr_t \<times> size_t \<times> bool) list \<Rightarrow> nat"
where
  "calls_with Demangle stripped calls =
     length (filter (\<lambda>c. StripName (Demangle (fst c)) = (True, stripped)) calls)"

text \<open>What a run of calls establishes about the table of stripped names.\<close>

definition pretty_inv ::
  "(string \<Rightarrow> string) \<Rightarrow> (string \<times> uintptr_t \<times> size_t \<times> bool) list \<Rightarrow> Program \<Rightarrow> bool"
where
  "pretty_inv D cs p \<longleftrightarrow>
     dom (objects p) = fst ` set cs \<and>
     (\<forall>m ob. objects p m = Some ob \<longrightarrow> name ob = m) \<and>
     (\<forall>st. (calls_with D st cs = 0 \<longrightarrow> stripped_pretty_names p st = None) \<and>
           (calls_with D st cs = 1 \<longrightarrow>
              (\<exists>c. stripped_pretty_names p st = Some (Some c) \<and> c \<in> fst ` set cs \<and>
                   StripName (D c) = (True, st))) \<and>
           (2 \<le> calls_with D st cs \<longrightarrow> stripped_pretty_names p st = Some None)) \<and>
     (\<forall>m ob. objects p m = Some ob \<longrightarrow>
        pretty_name ob =
          (case StripName (D m) of
             (False, _) \<Rightarrow> D m
           | (True, st) \<Rightarrow> if calls_with D st cs = 1 then st else D m))"

definition overloads :: "(string \<times> uintptr_t \<times> size_t \<times> bool) list" where
  "overloads =
     [(''_Z3fooi'', 0x100, 8, False), (''_Z3food'', 0x200, 8, False),
      (''_Z3bari'', 0x300, 8, False)]"

subsection \<open>Finite reference graphs and the invariants of the three walks\<close>

text \<open>
  A finite reference graph: the objects listed in \<open>nodes\<close> exist, their references stay
  within \<open>nodes\<close>, and their ids lie in \<open>[1, T)\<close>, where \<open>T\<close> is the number of slots
  of the vectors of the dominator calculator (\<^verbatim>\<open>next_id_\<close> in the code).
\<close>

definition graph_ok :: "(string \<rightharpoonup> Object) \<Rightarrow> obj_ptr list \<Rightarrow> nat \<Rightarrow> bool" where
  "graph_ok heap nodes T =
     list_all (\<lambda>x. case heap x of
                     None \<Rightarrow> False
                   | Some ob \<Rightarrow> list_all (\<lambda>t. t \<in> set nodes) (refs ob) \<and> 0 < id' ob \<and> id' ob < T)
       nodes"

text \<open>\<^verbatim>\<open>GC\<close>: the log has no duplicates and nothing logged is still in \<^verbatim>\<open>garbage\<close>.\<close>

definition gc_inv :: "obj_ptr list \<times> obj_ptr list \<times> obj_ptr list \<Rightarrow> bool" where
  "gc_inv st \<longleftrightarrow> distinct (snd (snd st)) \<and> set (snd (snd st)) \<inter> set (fst st) = {}"

text \<open>
  \<^verbatim>\<open>CalculateWeights\<close>: the references of the heap are those of the initial heap, and
  \<^verbatim>\<open>seen\<close> has no duplicates and stays within the nodes. \<open>cw_post\<close> is what a call
  establishes: it ends, in an error only when it went through a null dominator.
\<close>

definition cw_inv :: "(string \<rightharpoonup> Object) \<Rightarrow> obj_ptr list \<Rightarrow> (string \<rightharpoonup> Object) \<times> obj_ptr list \<Rightarrow> bool" where
  "cw_inv heap nodes st \<longleftrightarrow>
     (\<forall>x. refs (deref (fst st) x) = refs (deref heap x)) \<and> distinct (snd st) \<and> set (snd st) \<subseteq> set nodes"

definition cw_post ::
  "(string \<rightharpoonup> Object) \<Rightarrow> obj_ptr list \<Rightarrow> (obj_ptr \<rightharpoonup> obj_ptr option) \<Rightarrow> obj_ptr list
     \<Rightarrow> error + (string \<rightharpoonup> Object) \<times> obj_ptr list \<Rightarrow> bool" where
  "cw_post heap nodes dominators seen r =
     (case r of
        Inl e \<Rightarrow> e = Null_Dereference \<and> (\<exists>x. dominators x = Some None)
      | Inr st' \<Rightarrow> cw_inv heap nodes st' \<and> set seen \<subseteq> set (snd st'))"

text \<open>
  \<^verbatim>\<open>Initialize\<close>: the vectors keep their length, slot 0 is never numbered, and the vertex
  numbered \<open>i\<close> has \<open>semi = i\<close>. \<open>unvisited\<close> are the slots not numbered yet, and
  \<open>visit\<close> is the numbering of one vertex, the part of \<^verbatim>\<open>Initialize\<close> before its loop.
\<close>

definition ini_inv :: "nat \<Rightarrow> DominatorCalculator \<Rightarrow> bool" where
  "ini_inv T c \<longleftrightarrow>
     length (node_info c) = T \<and> length (ordering c) = T \<and> 0 < T \<and>
     semi (node_info c ! 0) = 0 \<and>
     (\<forall>i. 1 \<le> i \<and> i \<le> n' c \<longrightarrow>
          ordering c ! i < T \<and> semi (node_info c ! (ordering c ! i)) = i)"

definition unvisited :: "nat \<Rightarrow> DominatorCalculator \<Rightarrow> nat set" where
  "unvisited T c = {v. v < T \<and> semi (node_info c ! v) = 0}"

definition visit :: "obj_ptr \<Rightarrow> uint32_t \<Rightarrow> DominatorCalculator \<Rightarrow> DominatorCalculator" where
  "visit pv v c =
     (let c1 = info_update v (\<lambda>i. i\<lparr>node := Some pv\<rparr>) c;
          c2 = c1\<lparr>n' := n' c1 + 1\<rparr>;
          c3 = info_update v (\<lambda>i. i\<lparr>semi := n' c2\<rparr>) c2;
          c4 = c3\<lparr>ordering := (ordering c3)[n' c3 := v]\<rparr>;
          c5 = info_update v (\<lambda>i. i\<lparr>label := v\<rparr>) c4
      in info_update v (\<lambda>i. i\<lparr>ancestor := 0\<rparr>) c5)"

section \<open>Properties\<close>

subsection \<open>Reading and writing through pointers\<close>

lemma assign_apply:
  "assign ptr f heap q = (if q = ptr then map_option f (heap ptr) else heap q)"
  by (simp add: assign_def split: option.splits)

lemma emplace_apply:
  "emplace key mk m q = (if q = key \<and> m key = None then Some (mk key) else m q)"
  by (auto simp add: emplace_def split: option.splits)

subsection \<open>TryAddRef\<close>

text \<open>
  C10. \<^verbatim>\<open>TryAddRef\<close> with a null \<open>from\<close> returns the program unchanged, for every address;
  and when the address resolves to no symbol in \<^verbatim>\<open>objects_by_addr_\<close>, the program is
  unchanged as well: no edge between symbols, no edge between files, no error.
\<close>

theorem TryAddRef_null_or_miss:
  "TryAddRef None vmaddr' p = p \<and>
   (TryGet vmaddr' (objects_by_addr p) = None \<longrightarrow> TryAddRef from vmaddr' p = p)"
  by (simp add: TryAddRef_def split: option.splits)

theorem TryAddRef_null_or_miss_witness:
  "TryGet 0x50 (objects_by_addr scenario_chain) = None \<and>
   TryAddRef None 0x50 scenario_chain = scenario_chain \<and>
   TryAddRef (Some ''A'') 0x50 scenario_chain = scenario_chain"
proof -
  have miss: "TryGet 0x50 (objects_by_addr scenario_chain) = None"
    by code_simp
  from TryAddRef_null_or_miss [of "0x50" scenario_chain "Some ''A''"] miss
  show ?thesis by blast
qed


subsection \<open>AddObject\<close>

lemma AddObject_names:
  "stripped_pretty_names (snd (AddObject D n a s d p)) =
     (case StripName (D n) of
        (False, _) \<Rightarrow> stripped_pretty_names p
      | (True, st) \<Rightarrow>
          (case stripped_pretty_names p st of
             None \<Rightarrow> (stripped_pretty_names p)(st \<mapsto> Some n)
           | Some None \<Rightarrow> stripped_pretty_names p
           | Some (Some c) \<Rightarrow> (stripped_pretty_names p)(st \<mapsto> None)))"
  by (simp add: AddObject_def Let_def split: prod.splits bool.splits option.splits)

lemma AddObject_dom: "dom (objects (snd (AddObject D n a s d p))) = insert n (dom (objects p))"
  by (auto simp add: AddObject_def Let_def assign_apply emplace_apply dom_def split: prod.splits bool.splits option.splits if_splits)

lemma AddObject_pretty:
  assumes "\<forall>m ob. objects p m = Some ob \<longrightarrow> name ob = m"
  shows "map_option pretty_name (objects (snd (AddObject D n a s d p)) m) =
     (if m = n then
        Some (case StripName (D n) of
           (False, _) \<Rightarrow> D n
         | (True, st) \<Rightarrow> (case stripped_pretty_names p st of None \<Rightarrow> st | Some _ \<Rightarrow> D n))
      else if (\<exists>st. StripName (D n) = (True, st) \<and> stripped_pretty_names p st = Some (Some m))
        then map_option (\<lambda>ob. D m) (objects p m)
      else map_option pretty_name (objects p m))"
  using assms
  by (cases "objects p m")
     (auto simp add: AddObject_def Let_def assign_apply emplace_apply SetSize_def split: prod.splits bool.splits option.splits if_splits)

lemma AddObject_name:
  assumes "\<forall>m ob. objects p m = Some ob \<longrightarrow> name ob = m"
  shows "\<forall>m ob. objects (snd (AddObject D n a s d p)) m = Some ob \<longrightarrow> name ob = m"
  using assms
  by (auto simp add: AddObject_def Let_def assign_apply emplace_apply SetSize_def split: prod.splits bool.splits option.splits if_splits)

lemma calls_with_snoc: "calls_with D st (cs @ [c]) = calls_with D st cs + (if StripName (D (fst c)) = (True, st) then 1 else 0)"
  by (simp add: calls_with_def)

lemma calls_with_pos: "c \<in> set cs \<Longrightarrow> StripName (D (fst c)) = (True, st) \<Longrightarrow> 0 < calls_with D st cs"
  by (auto simp: calls_with_def filter_empty_conv)

lemma calls_with_unique:
  assumes "calls_with D st cs = 1" "c \<in> set cs" "StripName (D (fst c)) = (True, st)"
     "c' \<in> set cs" "StripName (D (fst c')) = (True, st)"
  shows "c = c'"
proof -
  obtain x where x: "filter (\<lambda>c. StripName (D (fst c)) = (True, st)) cs = [x]"
    using assms(1) by (auto simp: calls_with_def length_Suc_conv)
  have "c \<in> set (filter (\<lambda>c. StripName (D (fst c)) = (True, st)) cs)" using assms by simp
  moreover have "c' \<in> set (filter (\<lambda>c. StripName (D (fst c)) = (True, st)) cs)" using assms by simp
  ultimately show ?thesis unfolding x by simp
qed

lemma AddObjects_snoc: "AddObjects D (cs @ [(n, a, s, d)]) p = snd (AddObject D n a s d (AddObjects D cs p))"
  by (induction cs arbitrary: p) auto

lemma pretty_inv_init: "pretty_inv D [] Program_init"
  by (simp add: pretty_inv_def Program_init_def calls_with_def)

lemma pretty_inv_step:
  assumes inv: "pretty_inv D cs p"
  shows "pretty_inv D (cs @ [(n, a, s, d)]) (snd (AddObject D n a s d p))"
proof -
  let ?p' = "snd (AddObject D n a s d p)"
  let ?cs' = "cs @ [(n, a, s, d)]"
  from inv have dom: "dom (objects p) = fst ` set cs"
    and nm: "\<forall>m ob. objects p m = Some ob \<longrightarrow> name ob = m"
    and tab0: "\<And>st. calls_with D st cs = 0 \<Longrightarrow> stripped_pretty_names p st = None"
    and tab1: "\<And>st. calls_with D st cs = 1 \<Longrightarrow>
            \<exists>c. stripped_pretty_names p st = Some (Some c) \<and> c \<in> fst ` set cs \<and> StripName (D c) = (True, st)"
    and tab2: "\<And>st. 2 \<le> calls_with D st cs \<Longrightarrow> stripped_pretty_names p st = Some None"
    and pr: "\<And>m ob. objects p m = Some ob \<Longrightarrow>
        pretty_name ob = (case StripName (D m) of (False, _) \<Rightarrow> D m
                          | (True, st) \<Rightarrow> if calls_with D st cs = 1 then st else D m)"
    by (auto simp: pretty_inv_def)
  have cnt: "\<And>st. calls_with D st ?cs' = calls_with D st cs + (if StripName (D n) = (True, st) then 1 else 0)"
    by (simp add: calls_with_snoc)
  have tab_cases: "\<And>st. (calls_with D st cs = 0 \<and> stripped_pretty_names p st = None) \<or>
        (calls_with D st cs = 1 \<and> (\<exists>c. stripped_pretty_names p st = Some (Some c) \<and> c \<in> fst ` set cs \<and> StripName (D c) = (True, st))) \<or>
        (2 \<le> calls_with D st cs \<and> stripped_pretty_names p st = Some None)"
  proof -
    fix st
    consider "calls_with D st cs = 0" | "calls_with D st cs = 1" | "2 \<le> calls_with D st cs" by linarith
    then show "?thesis st" using tab0 tab1 tab2 by cases auto
  qed
  have uniq: "\<And>st c m. calls_with D st cs = 1 \<Longrightarrow> c \<in> fst ` set cs \<Longrightarrow> StripName (D c) = (True, st)
        \<Longrightarrow> m \<in> fst ` set cs \<Longrightarrow> StripName (D m) = (True, st) \<Longrightarrow> m = c"
  proof -
    fix st c m assume 1: "calls_with D st cs = 1" and c: "c \<in> fst ` set cs" "StripName (D c) = (True, st)"
      and m: "m \<in> fst ` set cs" "StripName (D m) = (True, st)"
    from c obtain cc where cc: "cc \<in> set cs" "fst cc = c" by auto
    from m obtain cm where cm: "cm \<in> set cs" "fst cm = m" by auto
    have "cc = cm" using calls_with_unique[OF 1 cc(1) _ cm(1)] cc cm c m by simp
    then show "m = c" using cc cm by simp
  qed
  have A: "dom (objects ?p') = fst ` set ?cs'"
    by (simp add: AddObject_dom dom)
  have B: "\<forall>m ob. objects ?p' m = Some ob \<longrightarrow> name ob = m"
    by (rule AddObject_name[OF nm])
  have C: "\<And>st. (calls_with D st ?cs' = 0 \<longrightarrow> stripped_pretty_names ?p' st = None) \<and>
           (calls_with D st ?cs' = 1 \<longrightarrow> (\<exists>c. stripped_pretty_names ?p' st = Some (Some c) \<and> c \<in> fst ` set ?cs' \<and> StripName (D c) = (True, st))) \<and>
           (2 \<le> calls_with D st ?cs' \<longrightarrow> stripped_pretty_names ?p' st = Some None)"
  proof -
    fix st
    have img: "fst ` set ?cs' = insert n (fst ` set cs)" by simp
    have tab': "stripped_pretty_names ?p' st =
        (if StripName (D n) = (True, st)
         then (case stripped_pretty_names p st of None \<Rightarrow> Some (Some n) | Some _ \<Rightarrow> Some None)
         else stripped_pretty_names p st)"
      by (cases "StripName (D n)"; cases "fst (StripName (D n))")
         (auto simp: AddObject_names split: option.splits)
    show "?thesis st"
    proof (cases "StripName (D n) = (True, st)")
      case True
      from tab_cases[of st] show ?thesis
        unfolding tab' img cnt using True by (elim disjE) auto
    next
      case False
      from tab_cases[of st] show ?thesis
        unfolding tab' img cnt using False by (elim disjE) (simp_all, blast)
    qed
  qed
  have D: "\<And>m ob. objects ?p' m = Some ob \<Longrightarrow>
        pretty_name ob = (case StripName (D m) of (False, _) \<Rightarrow> D m
                          | (True, st) \<Rightarrow> if calls_with D st ?cs' = 1 then st else D m)"
  proof -
    fix m ob assume ob: "objects ?p' m = Some ob"
    have P: "Some (pretty_name ob) = (if m = n then
        Some (case StripName (D n) of
           (False, _) \<Rightarrow> D n
         | (True, st) \<Rightarrow> (case stripped_pretty_names p st of None \<Rightarrow> st | Some _ \<Rightarrow> D n))
      else if (\<exists>st. StripName (D n) = (True, st) \<and> stripped_pretty_names p st = Some (Some m))
        then map_option (\<lambda>ob. D m) (objects p m)
      else map_option pretty_name (objects p m))"
      using AddObject_pretty[OF nm, of D n a s d m] ob by simp
    show "pretty_name ob = (case StripName (D m) of (False, _) \<Rightarrow> D m
                          | (True, st) \<Rightarrow> if calls_with D st ?cs' = 1 then st else D m)"
    proof (cases "m = n")
      case True
      then show ?thesis using P tab_cases[of "snd (StripName (D n))"]
        by (cases "StripName (D n)"; cases "fst (StripName (D n))") (auto simp: cnt split: option.splits)
    next
      case False
      then have "m \<in> dom (objects p)" using ob A dom AddObject_dom[of D n a s d p] by auto
      then obtain ob0 where ob0: "objects p m = Some ob0" by auto
      have min: "m \<in> fst ` set cs" using ob0 dom by auto
      show ?thesis
      proof (cases "\<exists>st. StripName (D n) = (True, st) \<and> stripped_pretty_names p st = Some (Some m)")
        case True
        then obtain st where st: "StripName (D n) = (True, st)" "stripped_pretty_names p st = Some (Some m)" by auto
        have c1: "calls_with D st cs = 1" using tab_cases[of st] st by auto
        then obtain c where c: "stripped_pretty_names p st = Some (Some c)" "StripName (D c) = (True, st)"
          using tab1 by blast
        then have "StripName (D m) = (True, st)" using st by simp
        moreover have "pretty_name ob = D m" using P False True ob0 by auto
        ultimately show ?thesis using c1 st by (simp add: cnt)
      next
        case nocl: False
        have eq: "pretty_name ob = pretty_name ob0" using P False nocl ob0 by auto
        show ?thesis
        proof (cases "StripName (D m)")
          case (Pair b stm)
          show ?thesis
          proof (cases "b \<and> StripName (D n) = (True, stm)")
            case False
            then show ?thesis using eq pr[OF ob0] Pair by (auto simp: cnt)
          next
            case True
            then have sm: "StripName (D m) = (True, stm)" and sn: "StripName (D n) = (True, stm)" using Pair by auto
            have pos: "0 < calls_with D stm cs" using min sm calls_with_pos[of _ cs D stm] by auto
            have "calls_with D stm cs \<noteq> 1"
            proof
              assume 1: "calls_with D stm cs = 1"
              then obtain c where c: "stripped_pretty_names p stm = Some (Some c)" "c \<in> fst ` set cs" "StripName (D c) = (True, stm)"
                using tab1 by blast
              have "m = c" using uniq[OF 1 c(2) c(3) min sm] .
              then show False using nocl sn c by auto
            qed
            then show ?thesis using eq pr[OF ob0] sm sn pos by (auto simp: cnt)
          qed
        qed
      qed
    qed
  qed
  show ?thesis
    unfolding pretty_inv_def using A B C D by blast
qed

lemma pretty_inv_AddObjects: "pretty_inv D cs (AddObjects D cs Program_init)"
proof (induction cs rule: rev_induct)
  case Nil
  show ?case by (simp add: pretty_inv_init)
next
  case (snoc c cs)
  obtain n a s d where c: "c = (n, a, s, d)" by (cases c) auto
  show ?case unfolding c AddObjects_snoc by (rule pretty_inv_step[OF snoc])
qed

lemma AddObject_record:
  "map_option (\<lambda>ob. (id' ob, vmaddr ob, size' ob, data ob, name ob, refs ob, file' ob))
     (objects (snd (AddObject Demangle name' a s d p)) m) =
   (if m = name'
    then Some (next_id p, a, s, d, name',
               (case objects p name' of None \<Rightarrow> [] | Some ob \<Rightarrow> refs ob),
               (case objects p name' of None \<Rightarrow> None | Some ob \<Rightarrow> file' ob))
    else map_option (\<lambda>ob. (id' ob, vmaddr ob, size' ob, data ob, name ob, refs ob, file' ob))
           (objects p m))"
  by (cases "objects p m")
     (auto simp add: AddObject_def Let_def assign_apply emplace_apply SetSize_def new_Object_def
           split: prod.splits bool.splits option.splits if_splits)

lemma AddObject_total_size: "total_size (snd (AddObject Demangle name' a s d p)) = total_size p + s"
  by (simp add: AddObject_def Let_def split: prod.splits bool.splits option.splits)

lemma AddObject_next_id: "next_id (snd (AddObject Demangle name' a s d p)) = (next_id p + 1) mod 2 ^ 32"
  by (simp add: AddObject_def Let_def split: prod.splits bool.splits option.splits)

lemma AddObject_ret: "fst (AddObject Demangle name' a s d p) = name'"
  by (simp add: AddObject_def Let_def split: prod.splits bool.splits option.splits)

text \<open>
  C3, as the code has it. A second \<^verbatim>\<open>AddObject\<close> for a name returns the record of the
  first call and creates no new one, but it is not idempotent: the record gets the next
  id in place of the one the first call gave it, its \<^verbatim>\<open>vmaddr\<close>, \<^verbatim>\<open>size\<close> and \<^verbatim>\<open>data\<close> are overwritten with the arguments of the second
  call (the last writer wins), and the size of the second call is added to
  \<^verbatim>\<open>total_size_\<close>. The name, the references and the file of the record stay.
\<close>

theorem AddObject_repeated:
  "(let p1 = snd (AddObject Demangle name' a1 s1 d1 p);
        p2 = snd (AddObject Demangle name' a2 s2 d2 p1);
        ob1 = deref (objects p1) name';
        ob2 = deref (objects p2) name'
    in fst (AddObject Demangle name' a2 s2 d2 p1) = fst (AddObject Demangle name' a1 s1 d1 p) \<and>
       dom (objects p2) = dom (objects p1) \<and>
       id' ob1 = next_id p \<and> next_id p1 = (next_id p + 1) mod 2 ^ 32 \<and>
       id' ob2 = next_id p1 \<and> vmaddr ob2 = a2 \<and> size' ob2 = s2 \<and> data ob2 = d2 \<and>
       name ob2 = name ob1 \<and> refs ob2 = refs ob1 \<and> file' ob2 = file' ob1 \<and>
       total_size p2 = total_size p1 + s2)"
proof -
  let ?p1 = "snd (AddObject Demangle name' a1 s1 d1 p)"
  let ?p2 = "snd (AddObject Demangle name' a2 s2 d2 ?p1)"
  have "name' \<in> dom (objects ?p1)" by (simp add: AddObject_dom)
  then obtain ob1 where ob1: "objects ?p1 name' = Some ob1" by auto
  have "name' \<in> dom (objects ?p2)" by (simp add: AddObject_dom)
  then obtain ob2 where ob2: "objects ?p2 name' = Some ob2" by auto
  have r1: "name ob1 = name'" "id' ob1 = next_id p"
    using AddObject_record[of Demangle name' a1 s1 d1 p name'] ob1 by simp_all
  have r2: "(id' ob2, vmaddr ob2, size' ob2, data ob2, name ob2, refs ob2, file' ob2) =
      (next_id ?p1, a2, s2, d2, name', refs ob1, file' ob1)"
    using AddObject_record[of Demangle name' a2 s2 d2 ?p1 name'] ob1 ob2 by simp
  show ?thesis
    using r1 r2 ob1 ob2
    by (simp add: Let_def deref_def AddObject_ret AddObject_dom AddObject_total_size
          AddObject_next_id)
qed

text \<open>
  C3 as stated fails: after \<open>f\<close> is added at \<open>0x100\<close> with size 10 and again at
  \<open>0x200\<close> with size 20 as data, the one record has id 2 instead of 1, the address, size
  and flag of the second call, and the total size is 30 instead of 10.
\<close>

theorem AddObject_twice_counterexample:
  "(let p1 = snd (AddObject cxxfilt ''f'' 0x100 10 False Program_init);
        p2 = snd (AddObject cxxfilt ''f'' 0x200 20 True p1)
    in fst (AddObject cxxfilt ''f'' 0x200 20 True p1) =
         fst (AddObject cxxfilt ''f'' 0x100 10 False Program_init) \<and>
       id' (deref (objects p1) ''f'') = 1 \<and> id' (deref (objects p2) ''f'') = 2 \<and>
       vmaddr (deref (objects p1) ''f'') = 0x100 \<and> vmaddr (deref (objects p2) ''f'') = 0x200 \<and>
       size' (deref (objects p1) ''f'') = 10 \<and> size' (deref (objects p2) ''f'') = 20 \<and>
       \<not> data (deref (objects p1) ''f'') \<and> data (deref (objects p2) ''f'') \<and>
       total_size p1 = 10 \<and> total_size p2 = 30)"
  by code_simp

text \<open>
  C8, as the code has it. After any run of \<^verbatim>\<open>AddObject\<close> calls from the empty program,
  every name \<open>m\<close> that was added has a record, and its \<^verbatim>\<open>pretty_name\<close> is: the demangled
  name when that has no parameter list; the stripped form when exactly one call of the run
  had a demangled name with a parameter list and this stripped form; the demangled name
  when two or more calls had.
\<close>

theorem pretty_name_rule:
  assumes "m \<in> fst ` set calls"
  shows "\<exists>ob. objects (AddObjects Demangle calls Program_init) m = Some ob \<and>
     pretty_name ob =
       (case StripName (Demangle m) of
          (False, stripped) \<Rightarrow> Demangle m
        | (True, stripped) \<Rightarrow>
            if calls_with Demangle stripped calls = 1 then stripped else Demangle m)"
proof -
  have inv: "pretty_inv Demangle calls (AddObjects Demangle calls Program_init)"
    by (rule pretty_inv_AddObjects)
  then have "m \<in> dom (objects (AddObjects Demangle calls Program_init))"
    using assms by (simp add: pretty_inv_def)
  then obtain ob where ob: "objects (AddObjects Demangle calls Program_init) m = Some ob"
    by auto
  with inv show ?thesis
    unfolding pretty_inv_def by blast
qed

theorem pretty_name_rule_witness:
  "''_Z3bari'' \<in> fst ` set overloads \<and> ''_Z3fooi'' \<in> fst ` set overloads \<and>
   pretty_name (deref (objects (AddObjects cxxfilt overloads Program_init)) ''_Z3bari'') = ''bar'' \<and>
   pretty_name (deref (objects (AddObjects cxxfilt overloads Program_init)) ''_Z3fooi'') =
     ''foo(int)''"
proof -
  have bar: "''_Z3bari'' \<in> fst ` set overloads" and foo: "''_Z3fooi'' \<in> fst ` set overloads"
    by (simp_all add: overloads_def)
  have bar_rule:
    "(case StripName (cxxfilt ''_Z3bari'') of
        (False, stripped) \<Rightarrow> cxxfilt ''_Z3bari''
      | (True, stripped) \<Rightarrow>
          if calls_with cxxfilt stripped overloads = 1 then stripped else cxxfilt ''_Z3bari'') =
     ''bar''"
    by code_simp
  have foo_rule:
    "(case StripName (cxxfilt ''_Z3fooi'') of
        (False, stripped) \<Rightarrow> cxxfilt ''_Z3fooi''
      | (True, stripped) \<Rightarrow>
          if calls_with cxxfilt stripped overloads = 1 then stripped else cxxfilt ''_Z3fooi'') =
     ''foo(int)''"
    by code_simp
  from pretty_name_rule [OF bar, of cxxfilt] bar_rule
  have 1: "pretty_name (deref (objects (AddObjects cxxfilt overloads Program_init)) ''_Z3bari'') =
      ''bar''"
    by (auto simp: deref_def)
  from pretty_name_rule [OF foo, of cxxfilt] foo_rule
  have 2: "pretty_name (deref (objects (AddObjects cxxfilt overloads Program_init)) ''_Z3fooi'') =
      ''foo(int)''"
    by (auto simp: deref_def)
  from bar foo 1 2 show ?thesis by blast
qed

text \<open>
  C8 as stated fails in two ways. The symbols \<open>foo\<close> and \<open>_Z3fooi\<close> (\<open>foo(int)\<close>) share
  the stripped form \<open>foo\<close>, and the second keeps the pretty name \<open>foo\<close>, not its
  demangled name: a name without a parameter list never enters the table. And when
  \<open>_Z3bari\<close> is added twice, the one symbol with the stripped form \<open>bar\<close> has the pretty
  name \<open>bar(int)\<close>.
\<close>

theorem pretty_name_counterexample:
  "(let p = AddObjects cxxfilt [(''foo'', 0x100, 8, False), (''_Z3fooi'', 0x200, 8, False)] Program_init
    in snd (StripName (cxxfilt ''foo'')) = snd (StripName (cxxfilt ''_Z3fooi'')) \<and>
       cxxfilt ''_Z3fooi'' = ''foo(int)'' \<and>
       pretty_name (deref (objects p) ''_Z3fooi'') = ''foo'' \<and>
       pretty_name (deref (objects p) ''foo'') = ''foo'') \<and>
   (let p = AddObjects cxxfilt [(''_Z3bari'', 0x100, 8, False), (''_Z3bari'', 0x100, 8, False)] Program_init
    in snd (StripName (cxxfilt ''_Z3bari'')) = ''bar'' \<and>
       pretty_name (deref (objects p) ''_Z3bari'') = ''bar(int)'')"
  by code_simp

subsection \<open>RangeMap lookups\<close>

text \<open>
  C5 at the failing input. In the chain scenario \<open>A\<close> occupies \<open>[0x100, 0x100 + 10)\<close> and
  the next symbol starts at \<open>0x200\<close>. The lookup of \<open>0x100 + 10\<close>, one past the end of
  \<open>A\<close>, still finds \<open>A\<close>: \<^verbatim>\<open>TryGet\<close> misses only when \<open>key + size < addr\<close>. The first
  address that misses is \<open>0x100 + 11\<close>.
\<close>

theorem lookup_past_end:
  "FindObjectByAddr (0x100 + 10) scenario_chain = Some ''A'' \<and>
   FindObjectByAddr (0x100 + 11) scenario_chain = None \<and>
   vmaddr (deref (objects scenario_chain) ''A'') = 0x100 \<and>
   size' (deref (objects scenario_chain) ''A'') = 10"
  by code_simp

subsection \<open>Reports without an entry point\<close>



subsection \<open>The vtable scan\<close>

text \<open>
  C7 at the failing input. The data symbol \<open>V\<close> has 12 bytes, one pointer-sized word and
  a half. The scan reads two words, \<open>0x2000\<close> and \<open>0x3000\<close>, calls \<^verbatim>\<open>TryAddRef\<close> for
  each and adds both edges: the loop runs while \<open>i < size\<close> in steps of 8, that is
  \<open>\<lceil>size / 8\<rceil>\<close> times.
\<close>

theorem vtable_words:
  "(case ParseVTables vtable_file [''V'', ''F1'', ''F2''] scenario_vtable of
      Inl e \<Rightarrow> False
    | Inr (p, calls) \<Rightarrow>
        calls = [0x2000, 0x3000] \<and> refs (deref (objects p) ''V'') = [''F1'', ''F2'']) \<and>
   size' (deref (objects scenario_vtable) ''V'') = 12"
  by code_simp

subsection \<open>Dominators and weights on the scenarios\<close>

text \<open>
  C2 at the failing inputs. On the chain \<open>A \<rightarrow> B \<rightarrow> C\<close> the map holds \<open>B \<mapsto> A\<close> and
  nothing for \<open>C\<close>, which is reachable: the loops of \<^verbatim>\<open>CalculateDominators\<close> run over
  the vertices numbered \<open>1 .. n - 1\<close>, the numbering starts at 1, and the vertex numbered
  \<open>n\<close> is never processed. On the diamond, when the references of \<open>A\<close> are walked in
  the order \<open>B, C\<close>, the map has \<open>D \<mapsto> B\<close> and nothing for \<open>C\<close>; in the order
  \<open>C, B\<close> it has \<open>D \<mapsto> C\<close> and nothing for \<open>B\<close>. Neither \<open>B\<close> nor \<open>C\<close> is on
  every path from \<open>A\<close> to \<open>D\<close>.
\<close>

theorem dominators_chain_diamond:
  "(case Calculate 5 (objects scenario_chain) (entry scenario_chain) (next_id scenario_chain)
           Map.empty of
      Inl e \<Rightarrow> False
    | Inr dominators \<Rightarrow>
        map dominators [''A'', ''B'', ''C''] = [None, Some (Some ''A''), None]) \<and>
   map (\<lambda>x. refs (deref (objects (scenario_diamond ''B'' ''C'')) x)) [''A'', ''B'', ''C'', ''D''] =
     [[''B'', ''C''], [''D''], [''D''], []] \<and>
   (case Calculate 5 (objects (scenario_diamond ''B'' ''C'')) (Some ''A'') 5 Map.empty of
      Inl e \<Rightarrow> False
    | Inr dominators \<Rightarrow>
        map dominators [''A'', ''B'', ''C'', ''D''] =
          [None, Some (Some ''A''), None, Some (Some ''B'')]) \<and>
   map (\<lambda>x. refs (deref (objects (scenario_diamond ''C'' ''B'')) x)) [''A'', ''B'', ''C'', ''D''] =
     [[''C'', ''B''], [''D''], [''D''], []] \<and>
   (case Calculate 5 (objects (scenario_diamond ''C'' ''B'')) (Some ''A'') 5 Map.empty of
      Inl e \<Rightarrow> False
    | Inr dominators \<Rightarrow>
        map dominators [''A'', ''B'', ''C'', ''D''] =
          [None, None, Some (Some ''A''), Some (Some ''C'')])"
  by code_simp

text \<open>
  C1 at the failing input. On the chain \<open>A(10) \<rightarrow> B(20) \<rightarrow> C(30)\<close> all three symbols are
  reachable (no garbage among the 3 objects) and their sizes add up to 60; the weight of
  the entry \<open>A\<close> after the propagation is 30, since \<open>C\<close> has no dominator entry.
\<close>

theorem entry_weight_chain:
  "(case snd (PrintSymbolsByTransitiveWeight 5 scenario_chain) of
      Inl e \<Rightarrow> False
    | Inr p \<Rightarrow>
        weight (deref (objects p) ''A'') = 30 \<and>
        map (\<lambda>x. size' (deref (objects p) x)) [''A'', ''B'', ''C''] = [10, 20, 30]) \<and>
   PrintGarbage 5 [''A'', ''B'', ''C''] [] scenario_chain = ([], Inr (None, 3, 0))"
  by code_simp

text \<open>
  C4 at the failing input. On the chain \<open>A(10) \<rightarrow> B(20) \<rightarrow> C(30) \<rightarrow> D(40)\<close> the pairs of
  weight and \<^verbatim>\<open>max_weight\<close> are \<open>(60, 40)\<close> for \<open>A\<close> and \<open>(50, 40)\<close> for \<open>B\<close>:
  \<^verbatim>\<open>max_weight\<close> is taken from the weight before anything is added to it. The same
  happens when \<^verbatim>\<open>CalculateWeights\<close> is given the right dominators of the chain
  \<open>A(10) \<rightarrow> B(20) \<rightarrow> C(30)\<close>: the weights are 60, 50 and 30, and \<^verbatim>\<open>max_weight\<close> is 30
  everywhere.
\<close>

theorem max_weight_chain4:
  "(case snd (PrintSymbolsByTransitiveWeight 5 scenario_chain4) of
      Inl e \<Rightarrow> False
    | Inr p \<Rightarrow>
        map (\<lambda>x. (weight (deref (objects p) x), max_weight (deref (objects p) x)))
          [''A'', ''B'', ''C'', ''D''] = [(60, 40), (50, 40), (30, 40), (40, 40)]) \<and>
   (case CalculateWeights 5 ''A'' [''B'' \<mapsto> Some ''A'', ''C'' \<mapsto> Some ''B'']
           (objects scenario_chain, []) of
      Inl e \<Rightarrow> False
    | Inr (heap, seen) \<Rightarrow>
        map (\<lambda>x. (weight (deref heap x), max_weight (deref heap x))) [''A'', ''B'', ''C''] =
          [(60, 30), (50, 30), (30, 30)])"
  by code_simp


subsection \<open>The three depth-first walks end\<close>

lemma graph_ok_refs: "graph_ok heap nodes T \<Longrightarrow> x \<in> set nodes \<Longrightarrow> set (refs (deref heap x)) \<subseteq> set nodes"
  by (auto simp: graph_ok_def list_all_iff deref_def split: option.splits)

lemma graph_ok_id: "graph_ok heap nodes T \<Longrightarrow> x \<in> set nodes \<Longrightarrow> 0 < id' (deref heap x) \<and> id' (deref heap x) < T"
  by (auto simp: graph_ok_def list_all_iff deref_def split: option.splits)

lemma length_removeAll_less': "x \<in> set xs \<Longrightarrow> length (removeAll x xs) < length xs"
  by (induction xs) (auto simp: less_Suc_eq_le length_removeAll_less_eq)

lemma GC_refs_from_GC:
  assumes P: "\<And>obj st. gc_inv st \<Longrightarrow> length (fst st) < k \<Longrightarrow>
      \<exists>st'. GC k heap obj st = Inr st' \<and> gc_inv st' \<and> length (fst st') \<le> length (fst st)"
  shows "gc_inv st \<Longrightarrow> length (fst st) < k \<Longrightarrow>
      \<exists>st'. GC_refs k heap children st = Inr st' \<and> gc_inv st' \<and> length (fst st') \<le> length (fst st)"
proof (induction children arbitrary: st)
  case Nil
  then show ?case by simp
next
  case (Cons child children)
  from P[OF Cons.prems] obtain st1 where 1: "GC k heap child st = Inr st1" "gc_inv st1"
    "length (fst st1) \<le> length (fst st)" by blast
  from Cons.IH[OF 1(2)] 1(3) Cons.prems(2) obtain st2 where
    "GC_refs k heap children st1 = Inr st2" "gc_inv st2" "length (fst st2) \<le> length (fst st1)"
    by fastforce
  with 1 show ?case by auto
qed

lemma GC_returns:
  "gc_inv st \<Longrightarrow> length (fst st) < k \<Longrightarrow>
     \<exists>st'. GC k heap obj st = Inr st' \<and> gc_inv st' \<and> length (fst st') \<le> length (fst st)"
proof (induction k arbitrary: obj st)
  case 0
  then show ?case by simp
next
  case (Suc k)
  obtain garbage stack visited where st: "st = (garbage, stack, visited)" by (cases st) auto
  show ?case
  proof (cases "obj \<in> set garbage")
    case False
    then show ?thesis using Suc.prems st by simp
  next
    case True
    let ?st1 = "(removeAll obj garbage, stack @ [obj], visited @ [obj])"
    have inv1: "gc_inv ?st1" using Suc.prems(1) True st by (auto simp: gc_inv_def)
    have len1: "length (fst ?st1) < k"
      using length_removeAll_less'[OF True] Suc.prems(2) st by simp
    from GC_refs_from_GC[of k heap, OF Suc.IH inv1 len1]
    obtain st2 where 2: "GC_refs k heap (refs (deref heap obj)) ?st1 = Inr st2" "gc_inv st2"
      "length (fst st2) \<le> length (fst ?st1)" by blast
    obtain g2 s2 v2 where st2: "st2 = (g2, s2, v2)" by (cases st2) auto
    show ?thesis using True st 2 st2 length_removeAll_less'[OF True]
      by (auto simp: gc_inv_def)
  qed
qed

lemma deref_assign_refs:
  "(\<And>ob. refs (f ob) = refs ob) \<Longrightarrow> refs (deref (assign p f h) x) = refs (deref h x)"
  by (cases "h p") (auto simp: deref_def assign_apply)

lemma card_diff_mono: "finite A \<Longrightarrow> B \<subseteq> C \<Longrightarrow> card (A - C) \<le> card (A - B)"
  by (rule card_mono) auto

lemma CW_refs_from_CW:
  assumes ok: "graph_ok heap nodes T"
    and P: "\<And>obj st. cw_inv heap nodes st \<Longrightarrow> obj \<in> set nodes \<Longrightarrow> card (set nodes - set (snd st)) < k \<Longrightarrow>
      cw_post heap nodes dominators (snd st) (CalculateWeights k obj dominators st)"
  shows "cw_inv heap nodes st \<Longrightarrow> set targets \<subseteq> set nodes \<Longrightarrow> card (set nodes - set (snd st)) < k \<Longrightarrow>
      cw_post heap nodes dominators (snd st) (CalculateWeights_refs k obj targets dominators st)"
proof (induction targets arbitrary: st)
  case Nil
  then show ?case by (simp add: cw_post_def)
next
  case (Cons target targets)
  have t: "target \<in> set nodes" using Cons.prems(2) by simp
  have 1: "cw_post heap nodes dominators (snd st) (CalculateWeights k target dominators st)"
    by (rule P[OF Cons.prems(1) t Cons.prems(3)])
  show ?case
  proof (cases "CalculateWeights k target dominators st")
    case (Inl e)
    then show ?thesis using 1 by (simp add: cw_post_def)
  next
    case (Inr st1)
    obtain h1 seen1 where st1: "st1 = (h1, seen1)" by (cases st1) auto
    let ?st2 = "(assign obj (\<lambda>ob. ob\<lparr>max_weight := max (max_weight ob) (max_weight (deref h1 target))\<rparr>) h1, seen1)"
    have inv1: "cw_inv heap nodes st1" and sub1: "set (snd st) \<subseteq> set seen1"
      using 1 Inr st1 by (auto simp: cw_post_def)
    have inv2: "cw_inv heap nodes ?st2"
      using inv1 st1 by (simp add: cw_inv_def deref_assign_refs)
    have "card (set nodes - set seen1) \<le> card (set nodes - set (snd st))"
      by (rule card_diff_mono) (use sub1 in auto)
    then have m2: "card (set nodes - set (snd ?st2)) < k" using Cons.prems(3) by simp
    have "cw_post heap nodes dominators (snd ?st2) (CalculateWeights_refs k obj targets dominators ?st2)"
      using Cons.IH[OF inv2 _ m2] Cons.prems(2) by simp
    then show ?thesis using Inr st1 sub1
      by (auto simp: cw_post_def split: sum.splits)
  qed
qed

lemma CW_returns:
  assumes ok: "graph_ok heap nodes T"
  shows "cw_inv heap nodes st \<Longrightarrow> obj \<in> set nodes \<Longrightarrow> card (set nodes - set (snd st)) < k \<Longrightarrow>
      cw_post heap nodes dominators (snd st) (CalculateWeights k obj dominators st)"
proof (induction k arbitrary: obj st)
  case 0
  then show ?case by simp
next
  case (Suc k)
  obtain h seen where st: "st = (h, seen)" by (cases st) auto
  show ?case
  proof (cases "obj \<in> set seen")
    case True
    then show ?thesis using Suc.prems st by (simp add: cw_post_def)
  next
    case False
    let ?h2 = "assign obj (\<lambda>ob. ob\<lparr>max_weight := weight ob\<rparr>) (assign obj (\<lambda>ob. ob\<lparr>weight := size' ob\<rparr>) h)"
    let ?st1 = "(?h2, seen @ [obj])"
    have inv1: "cw_inv heap nodes ?st1"
      using Suc.prems(1,2) False st by (simp add: cw_inv_def deref_assign_refs)
    have "set nodes - set (seen @ [obj]) \<subset> set nodes - set seen"
      using False Suc.prems(2) by auto
    then have "card (set nodes - set (seen @ [obj])) < card (set nodes - set seen)"
      by (intro psubset_card_mono) auto
    then have m1: "card (set nodes - set (snd ?st1)) < k" using Suc.prems(3) st by simp
    have tg: "set (refs (deref ?h2 obj)) \<subseteq> set nodes"
      using graph_ok_refs[OF ok Suc.prems(2)] Suc.prems(1) st
      by (simp add: cw_inv_def deref_assign_refs)
    have post: "cw_post heap nodes dominators (snd ?st1)
        (CalculateWeights_refs k obj (refs (deref ?h2 obj)) dominators ?st1)"
      by (rule CW_refs_from_CW[OF ok Suc.IH inv1 tg m1])
    show ?thesis
    proof (cases "CalculateWeights_refs k obj (refs (deref ?h2 obj)) dominators ?st1")
      case (Inl e)
      then show ?thesis using post False st by (simp add: cw_post_def Let_def)
    next
      case (Inr st3)
      obtain h3 seen3 where st3: "st3 = (h3, seen3)" by (cases st3) auto
      have inv3: "cw_inv heap nodes (h3, seen3)" and sub3: "set (seen @ [obj]) \<subseteq> set seen3"
        using post Inr st3 by (auto simp: cw_post_def)
      show ?thesis
        using Inr st3 False st inv3 sub3
        by (auto simp: cw_post_def Let_def cw_inv_def deref_assign_refs split: option.splits)
    qed
  qed
qed

lemma info_update_simps [simp]:
  "n' (info_update v f c) = n' c"
  "ordering (info_update v f c) = ordering c"
  "length (node_info (info_update v f c)) = length (node_info c)"
  by (simp_all add: info_update_def)

lemma info_update_semi:
  "x < length (node_info c) \<Longrightarrow>
   semi (node_info (info_update v f c) ! x) =
     (if x = v then semi (f (node_info c ! v)) else semi (node_info c ! x))"
  by (simp add: info_update_def nth_list_update)

lemma ini_inv_info_update:
  assumes "\<And>i. semi (f i) = semi i" "ini_inv T c"
  shows "ini_inv T (info_update w f c)"
  using assms unfolding ini_inv_def
  by (auto simp: info_update_semi)

lemma unvisited_info_update:
  assumes "\<And>i. semi (f i) = semi i" "length (node_info c) = T"
  shows "unvisited T (info_update w f c) = unvisited T c"
  using assms unfolding unvisited_def
  by (auto simp: info_update_semi split: if_splits)

lemma numbered_bound:
  assumes inv: "ini_inv T c" and v: "0 < v" "v < T" "semi (node_info c ! v) = 0"
  shows "n' c + 2 \<le> T"
proof -
  let ?f = "\<lambda>i. ordering c ! i"
  have inj: "inj_on ?f {1..n' c}"
    by (rule inj_on_inverseI[where g = "\<lambda>w. semi (node_info c ! w)"])
       (use inv in \<open>auto simp: ini_inv_def\<close>)
  have sub: "?f ` {1..n' c} \<subseteq> {..<T} - {0, v}"
  proof
    fix w assume "w \<in> ?f ` {1..n' c}"
    then obtain i where i: "1 \<le> i" "i \<le> n' c" "w = ordering c ! i" by auto
    then have "w < T" "semi (node_info c ! w) = i" using inv by (auto simp: ini_inv_def)
    moreover have "semi (node_info c ! 0) = 0" using inv by (simp add: ini_inv_def)
    ultimately show "w \<in> {..<T} - {0, v}" using i v by (cases "w = 0") auto
  qed
  have "n' c = card (?f ` {1..n' c})" using inj by (simp add: card_image)
  also have "\<dots> \<le> card ({..<T} - {0, v})" by (rule card_mono[OF _ sub]) simp
  also have "\<dots> = T - 2" using v by (simp add: card_Diff_subset)
  finally show ?thesis using v by linarith
qed

lemma visit_facts:
  "n' (visit pv v c) = n' c + 1"
  "ordering (visit pv v c) = (ordering c)[n' c + 1 := v]"
  "length (node_info (visit pv v c)) = length (node_info c)"
  "x < length (node_info c) \<Longrightarrow>
     semi (node_info (visit pv v c) ! x) = (if x = v then n' c + 1 else semi (node_info c ! x))"
  by (simp_all add: visit_def Let_def info_update_def nth_list_update)

lemma Initialize_Suc:
  "Initialize (Suc k) heap pv c =
     Initialize_refs k heap (id' (deref heap pv)) (refs (deref heap pv)) (visit pv (id' (deref heap pv)) c)"
  by (simp add: visit_def Let_def)

lemma visit_inv:
  assumes inv: "ini_inv T c" and v: "0 < v" "v < T" "semi (node_info c ! v) = 0"
  shows "ini_inv T (visit pv v c)" and "unvisited T (visit pv v c) = unvisited T c - {v}"
proof -
  have b: "n' c + 2 \<le> T" by (rule numbered_bound[OF inv v])
  have len: "length (node_info c) = T" "length (ordering c) = T" using inv by (auto simp: ini_inv_def)
  show "ini_inv T (visit pv v c)"
    unfolding ini_inv_def
  proof (intro conjI allI impI)
    fix i assume i: "1 \<le> i \<and> i \<le> n' (visit pv v c)"
    show "ordering (visit pv v c) ! i < T"
    proof (cases "i = n' c + 1")
      case True then show ?thesis using b len v by (simp add: visit_facts)
    next
      case False then show ?thesis using i inv by (auto simp: visit_facts ini_inv_def)
    qed
    show "semi (node_info (visit pv v c) ! (ordering (visit pv v c) ! i)) = i"
    proof (cases "i = n' c + 1")
      case True then show ?thesis using b len v by (simp add: visit_facts)
    next
      case False
      then have i': "1 \<le> i" "i \<le> n' c" using i by (auto simp: visit_facts)
      then have "ordering c ! i < T" "semi (node_info c ! (ordering c ! i)) = i"
        using inv by (auto simp: ini_inv_def)
      moreover from this i' v have "ordering c ! i \<noteq> v" by auto
      ultimately show ?thesis using False len by (simp add: visit_facts)
    qed
  qed (use inv len v in \<open>auto simp: visit_facts ini_inv_def\<close>)
  show "unvisited T (visit pv v c) = unvisited T c - {v}"
    using len v unfolding unvisited_def by (auto simp: visit_facts split: if_splits)
qed

lemma Initialize_refs_from_Initialize:
  assumes ok: "graph_ok heap nodes T"
    and P: "\<And>pv c. ini_inv T c \<Longrightarrow> pv \<in> set nodes \<Longrightarrow> semi (node_info c ! id' (deref heap pv)) = 0 \<Longrightarrow>
        card (unvisited T c) < k \<Longrightarrow>
        \<exists>c'. Initialize k heap pv c = Inr c' \<and> ini_inv T c' \<and> unvisited T c' \<subseteq> unvisited T c"
  shows "ini_inv T c \<Longrightarrow> set targets \<subseteq> set nodes \<Longrightarrow> card (unvisited T c) < k \<Longrightarrow>
        \<exists>c'. Initialize_refs k heap v targets c = Inr c' \<and> ini_inv T c' \<and> unvisited T c' \<subseteq> unvisited T c"
proof (induction targets arbitrary: c)
  case Nil
  then show ?case by simp
next
  case (Cons target targets)
  let ?w = "id' (deref heap target)"
  have fin: "finite (unvisited T c)" by (simp add: unvisited_def)
  have len: "length (node_info c) = T" using Cons.prems(1) by (simp add: ini_inv_def)
  have t: "target \<in> set nodes" using Cons.prems(2) by simp
  have "\<exists>c1. (if Semi c ?w = 0
            then Initialize k heap target (info_update ?w (\<lambda>i. i\<lparr>parent := v\<rparr>) c)
            else Inr c) = Inr c1 \<and> ini_inv T c1 \<and> unvisited T c1 \<subseteq> unvisited T c"
  proof (cases "Semi c ?w = 0")
    case False
    then show ?thesis using Cons.prems(1) by simp
  next
    case True
    let ?c0 = "info_update ?w (\<lambda>i. i\<lparr>parent := v\<rparr>) c"
    have inv0: "ini_inv T ?c0" by (rule ini_inv_info_update[OF _ Cons.prems(1)]) simp
    have un0: "unvisited T ?c0 = unvisited T c" by (rule unvisited_info_update[OF _ len]) simp
    have s0: "semi (node_info ?c0 ! ?w) = 0"
      using True graph_ok_id[OF ok t] len by (simp add: Semi_def info_update_semi)
    from P[OF inv0 t s0] un0 Cons.prems(3) show ?thesis using True by auto
  qed
  then obtain c1 where c1: "(if Semi c ?w = 0
            then Initialize k heap target (info_update ?w (\<lambda>i. i\<lparr>parent := v\<rparr>) c)
            else Inr c) = Inr c1" "ini_inv T c1" "unvisited T c1 \<subseteq> unvisited T c" by blast
  let ?c2 = "info_update ?w (\<lambda>i. i\<lparr>pred' := id_set_insert v (pred' i)\<rparr>) c1"
  have len1: "length (node_info c1) = T" using c1(2) by (simp add: ini_inv_def)
  have inv2: "ini_inv T ?c2" by (rule ini_inv_info_update[OF _ c1(2)]) simp
  have un2: "unvisited T ?c2 = unvisited T c1" by (rule unvisited_info_update[OF _ len1]) simp
  have "card (unvisited T ?c2) \<le> card (unvisited T c)"
    unfolding un2 by (rule card_mono[OF fin c1(3)])
  then have m2: "card (unvisited T ?c2) < k" using Cons.prems(3) by simp
  from Cons.IH[OF inv2 _ m2] Cons.prems(2) obtain c3 where
    c3: "Initialize_refs k heap v targets ?c2 = Inr c3" "ini_inv T c3" "unvisited T c3 \<subseteq> unvisited T ?c2"
    by auto
  show ?case using c1 c3 un2 by (auto simp: Let_def)
qed

lemma Initialize_returns:
  assumes ok: "graph_ok heap nodes T"
  shows "ini_inv T c \<Longrightarrow> pv \<in> set nodes \<Longrightarrow> semi (node_info c ! id' (deref heap pv)) = 0 \<Longrightarrow>
        card (unvisited T c) < k \<Longrightarrow>
        \<exists>c'. Initialize k heap pv c = Inr c' \<and> ini_inv T c' \<and> unvisited T c' \<subseteq> unvisited T c"
proof (induction k arbitrary: pv c)
  case 0
  then show ?case by simp
next
  case (Suc k)
  let ?v = "id' (deref heap pv)"
  have v: "0 < ?v" "?v < T" using graph_ok_id[OF ok Suc.prems(2)] by auto
  have fin: "finite (unvisited T c)" by (simp add: unvisited_def)
  have inv1: "ini_inv T (visit pv ?v c)" and un1: "unvisited T (visit pv ?v c) = unvisited T c - {?v}"
    using visit_inv[OF Suc.prems(1) v Suc.prems(3)] by auto
  have "?v \<in> unvisited T c" using v Suc.prems(3) by (simp add: unvisited_def)
  then have "card (unvisited T (visit pv ?v c)) < card (unvisited T c)"
    unfolding un1 by (intro card_Diff1_less fin)
  then have m1: "card (unvisited T (visit pv ?v c)) < k" using Suc.prems(4) by simp
  have tg: "set (refs (deref heap pv)) \<subseteq> set nodes" by (rule graph_ok_refs[OF ok Suc.prems(2)])
  from Initialize_refs_from_Initialize[of heap nodes T k, OF ok Suc.IH inv1 tg m1]
  obtain c' where "Initialize_refs k heap ?v (refs (deref heap pv)) (visit pv ?v c) = Inr c'"
    "ini_inv T c'" "unvisited T c' \<subseteq> unvisited T (visit pv ?v c)" by blast
  then show ?case unfolding Initialize_Suc un1 by auto
qed

lemma ini_inv_distinct:
  assumes "ini_inv T c"
  shows "distinct (map (Vertex c) [1..<Suc (n' c)])"
proof -
  have "inj_on (Vertex c) (set [1..<Suc (n' c)])"
    by (rule inj_on_inverseI[where g = "\<lambda>w. semi (node_info c ! w)"])
       (use assms in \<open>auto simp: ini_inv_def Vertex_def\<close>)
  then show ?thesis by (simp add: distinct_map)
qed

text \<open>
  C9. On a finite reference graph, with cycles and self-edges allowed, each of the three
  walks ends once the bound on the recursion depth exceeds the number of objects (for
  \<^verbatim>\<open>Initialize\<close>: the number of slots), and processes no object twice: the objects erased
  by \<^verbatim>\<open>GC\<close>, the objects entered into \<^verbatim>\<open>seen\<close> by \<^verbatim>\<open>CalculateWeights\<close> and the vertices
  numbered by \<^verbatim>\<open>Initialize\<close> are without duplicates. \<^verbatim>\<open>CalculateWeights\<close> ends in an error
  only when the dominator map holds a null pointer, which it then dereferences.
\<close>

theorem walks_terminate:
  assumes ok: "graph_ok heap nodes T" and root: "root \<in> set nodes"
    and fuel: "length garbage < k" "length nodes < k" "T < k"
  shows "(\<exists>garbage' stack' visited'.
            GC k heap root (garbage, [], []) = Inr (garbage', stack', visited') \<and>
            distinct visited') \<and>
         (case CalculateWeights k root dominators (heap, []) of
            Inl e \<Rightarrow> e = Null_Dereference \<and> (\<exists>x. dominators x = Some None)
          | Inr (heap', seen') \<Rightarrow> distinct seen') \<and>
         (\<exists>c. Initialize k heap root
                 \<lparr>n' = 0, node_info = replicate T NodeInfo_zero, ordering = replicate T 0\<rparr> =
               Inr c \<and>
               distinct (map (Vertex c) [1..<Suc (n' c)]))"
proof (intro conjI)
  have "gc_inv (garbage, [], [])" by (simp add: gc_inv_def)
  from GC_returns[OF this, of k heap root] fuel(1)
  obtain st' where "GC k heap root (garbage, [], []) = Inr st'" "gc_inv st'" by auto
  then show "\<exists>garbage' stack' visited'.
      GC k heap root (garbage, [], []) = Inr (garbage', stack', visited') \<and> distinct visited'"
    by (cases st') (auto simp: gc_inv_def)
next
  have inv: "cw_inv heap nodes (heap, [])" by (simp add: cw_inv_def)
  have "card (set nodes) \<le> length nodes" by (rule card_length)
  then have m: "card (set nodes - set (snd (heap, []))) < k" using fuel(2) by simp
  have "cw_post heap nodes dominators (snd (heap, []))
          (CalculateWeights k root dominators (heap, []))"
    by (rule CW_returns[OF ok inv root m])
  then show "case CalculateWeights k root dominators (heap, []) of
      Inl e \<Rightarrow> e = Null_Dereference \<and> (\<exists>x. dominators x = Some None)
    | Inr (heap', seen') \<Rightarrow> distinct seen'"
    by (auto simp: cw_post_def cw_inv_def split: sum.splits)
next
  let ?c0 = "\<lparr>n' = 0, node_info = replicate T NodeInfo_zero, ordering = replicate T 0\<rparr>"
  have r: "0 < id' (deref heap root)" "id' (deref heap root) < T"
    using graph_ok_id[OF ok root] by auto
  have inv: "ini_inv T ?c0" using r by (simp add: ini_inv_def NodeInfo_zero_def)
  have s0: "semi (node_info ?c0 ! id' (deref heap root)) = 0"
    using r by (simp add: NodeInfo_zero_def)
  have "unvisited T ?c0 = {..<T}" by (auto simp: unvisited_def NodeInfo_zero_def)
  then have m: "card (unvisited T ?c0) < k" using fuel(3) by simp
  from Initialize_returns[OF ok inv root s0 m]
  obtain c where "Initialize k heap root ?c0 = Inr c" "ini_inv T c" by blast
  then show "\<exists>c. Initialize k heap root ?c0 = Inr c \<and> distinct (map (Vertex c) [1..<Suc (n' c)])"
    using ini_inv_distinct by blast
qed

theorem walks_terminate_witness:
  "graph_ok (objects scenario_cycle) [''A'', ''B'', ''C''] 4 \<and>
   ''A'' \<in> set [''A'', ''B'', ''C''] \<and>
   (\<exists>garbage' stack' visited'.
      GC 5 (objects scenario_cycle) ''A'' ([''A'', ''B'', ''C''], [], []) =
        Inr (garbage', stack', visited') \<and>
      distinct visited') \<and>
   (case CalculateWeights 5 ''A'' Map.empty (objects scenario_cycle, []) of
      Inl e \<Rightarrow> e = Null_Dereference \<and> (\<exists>x::obj_ptr. Map.empty x = Some (None::obj_ptr option))
    | Inr (heap', seen') \<Rightarrow> distinct seen') \<and>
   (\<exists>c. Initialize 5 (objects scenario_cycle) ''A''
           \<lparr>n' = 0, node_info = replicate 4 NodeInfo_zero, ordering = replicate 4 0\<rparr> =
         Inr c \<and>
         distinct (map (Vertex c) [1..<Suc (n' c)]))"
proof -
  have ok: "graph_ok (objects scenario_cycle) [''A'', ''B'', ''C''] 4"
    by code_simp
  have root: "''A'' \<in> set [''A'', ''B'', ''C'']"
    by simp
  have fuel: "length [''A'', ''B'', ''C''] < (5::nat)" "(4::nat) < 5"
    by simp_all
  note walks = walks_terminate [OF ok root fuel(1) fuel(1) fuel(2), of Map.empty]
  show ?thesis by (rule conjI [OF ok conjI [OF root walks]])
qed

end
